theory Spec2Isabelle
  imports Main
begin

chapter \<open>The model\<close>

section \<open>The device store of the network monitor (helpers/monitor.py)\<close>

text \<open>
  Timestamps are the texts of \<^verbatim>\<open>datetime.now().isoformat()\<close>; the model keeps the
  instant they denote as a number, handed to each operation that reads the clock.
\<close>

type_synonym time = nat

datatype error = OperationalError | ValueError | CancelledError | OverflowError

subsection \<open>Python's str.lower on MAC texts\<close>

text \<open>
  MAC texts are ASCII (hex digits and separators). \<open>lower\<close> maps the letters
  \<open>A\<close> to \<open>Z\<close> to \<open>a\<close> to \<open>z\<close> and leaves every other character as it is.
\<close>

definition lower_char :: "char \<Rightarrow> char" where
  "lower_char c =
     (let n = (of_char c :: nat) in if 65 \<le> n \<and> n \<le> 90 then char_of (n + 32) else c)"

definition lower :: "string \<Rightarrow> string" where
  "lower s = map lower_char s"

subsection \<open>Records\<close>

text \<open>
  The dataclass \<^verbatim>\<open>Device\<close> of async_scanner.py. The store and the monitor read the
  four fields below; status, response_time, discovery_method, first_seen, last_seen,
  ports and os_guess are carried along by the scanner and never read here.
\<close>

record device =
  ip :: string
  mac :: string
  hostname :: string
  vendor :: string

text \<open>A row of the table \<^verbatim>\<open>devices\<close>, whose primary key is the column mac.\<close>

record device_row =
  r_mac :: string
  r_ip :: string
  r_hostname :: string
  r_vendor :: string
  first_seen :: time
  last_seen :: time
  is_known :: nat
  is_trusted :: nat
  r_notes :: "string option"
  custom_name :: "string option"

text \<open>A row of \<^verbatim>\<open>device_history\<close>; the autoincrement id is the position in the list.\<close>

record history_row =
  h_mac :: string
  h_ip :: string
  event_type :: string
  h_timestamp :: time
  details :: string

record scan_row =
  s_timestamp :: time
  device_count :: nat
  new_devices :: nat
  gone_devices :: nat
  scan_type :: string

text \<open>
  The database file. \<open>history_write_fails\<close> is the condition of the environment under
  which the INSERT into \<^verbatim>\<open>device_history\<close> raises (a locked table, a full disk):
  sqlite3 then raises \<^verbatim>\<open>sqlite3.OperationalError\<close> out of \<^verbatim>\<open>log_event\<close>, which has no
  handler of its own. The statements on the other two tables are taken to succeed.
\<close>

record store =
  devices :: "string \<rightharpoonup> device_row"
  device_history :: "history_row list"
  scan_history :: "scan_row list"
  history_write_fails :: bool

text \<open>The file as \<^verbatim>\<open>_init_db\<close> creates it: the three tables, no row.\<close>

definition empty_store :: store where
  "empty_store =
     \<lparr>devices = Map.empty, device_history = [], scan_history = [],
      history_write_fails = False\<rparr>"

subsection \<open>DeviceDatabase\<close>

definition get_device :: "store \<Rightarrow> string \<Rightarrow> device_row option" where
  "get_device db m = devices db (lower m)"

text \<open>\<^verbatim>\<open>UPDATE devices SET ... WHERE mac = k\<close>: the row with key \<open>k\<close> changes, if there is one.\<close>

definition update_where_mac :: "store \<Rightarrow> string \<Rightarrow> (device_row \<Rightarrow> device_row) \<Rightarrow> store" where
  "update_where_mac db k f =
     (case devices db k of
        None \<Rightarrow> db
      | Some r \<Rightarrow> db\<lparr>devices := (devices db)(k \<mapsto> f r)\<rparr>)"

text \<open>\<^verbatim>\<open>COALESCE(x or None, old)\<close>: the new text unless it is empty.\<close>

definition coalesce :: "string \<Rightarrow> string \<Rightarrow> string" where
  "coalesce new old = (if new \<noteq> [] then new else old)"

definition upsert_device :: "time \<Rightarrow> store \<Rightarrow> device \<Rightarrow> bool \<times> store" where
  "upsert_device now db d =
     (let m = lower (mac d) in
      case get_device db m of
        Some existing \<Rightarrow>
          (False,
           update_where_mac db m
             (\<lambda>r. r\<lparr>r_ip := ip d,
                    r_hostname := coalesce (hostname d) (r_hostname r),
                    r_vendor := coalesce (vendor d) (r_vendor r),
                    last_seen := now\<rparr>))
      | None \<Rightarrow>
          (True,
           db\<lparr>devices := (devices db)(m \<mapsto>
                \<lparr>r_mac = m, r_ip = ip d, r_hostname = hostname d, r_vendor = vendor d,
                 first_seen = now, last_seen = now, is_known = 0, is_trusted = 0,
                 r_notes = None, custom_name = None\<rparr>)\<rparr>))"

definition log_event :: "time \<Rightarrow> store \<Rightarrow> string \<Rightarrow> string \<Rightarrow> string \<Rightarrow> string \<Rightarrow> error + store" where
  "log_event now db m ev i det =
     (if history_write_fails db then Inl OperationalError
      else Inr (db\<lparr>device_history := device_history db @
                  [\<lparr>h_mac = lower m, h_ip = i, event_type = ev, h_timestamp = now,
                    details = det\<rparr>]\<rparr>))"

definition log_scan :: "time \<Rightarrow> store \<Rightarrow> nat \<Rightarrow> nat \<Rightarrow> nat \<Rightarrow> string \<Rightarrow> store" where
  "log_scan now db n_devices n_new n_gone ty =
     db\<lparr>scan_history := scan_history db @
          [\<lparr>s_timestamp = now, device_count = n_devices, new_devices = n_new,
            gone_devices = n_gone, scan_type = ty\<rparr>]\<rparr>"

definition mark_known :: "store \<Rightarrow> string \<Rightarrow> bool \<Rightarrow> store" where
  "mark_known db m known =
     update_where_mac db (lower m) (\<lambda>r. r\<lparr>is_known := (if known then 1 else 0)\<rparr>)"

definition mark_trusted :: "store \<Rightarrow> string \<Rightarrow> bool \<Rightarrow> store" where
  "mark_trusted db m trusted =
     update_where_mac db (lower m) (\<lambda>r. r\<lparr>is_trusted := (if trusted then 1 else 0)\<rparr>)"

definition set_custom_name :: "store \<Rightarrow> string \<Rightarrow> string \<Rightarrow> store" where
  "set_custom_name db m name =
     update_where_mac db (lower m) (\<lambda>r. r\<lparr>custom_name := Some name\<rparr>)"

text \<open>
  \<^verbatim>\<open>SELECT ... WHERE mac = ? ORDER BY timestamp DESC LIMIT ?\<close>. The latest rows come
  first and rows of equal timestamp stay in the order of their insertion. SQLite reads a
  negative LIMIT as no limit; a limit outside the 64-bit integers cannot be bound to the
  statement, and sqlite3 raises \<^verbatim>\<open>OverflowError\<close>.
\<close>

definition get_device_history :: "store \<Rightarrow> string \<Rightarrow> int \<Rightarrow> error + history_row list" where
  "get_device_history db m limit =
     (if limit < - (2 ^ 63) \<or> 2 ^ 63 \<le> limit then Inl OverflowError
      else
        let rows = rev (sort_key h_timestamp
                     (rev (filter (\<lambda>h. h_mac h = lower m) (device_history db))))
        in if limit < 0 then Inr rows else Inr (take (nat limit) rows))"

subsection \<open>Sequences of upserts\<close>

text \<open>A run of \<^verbatim>\<open>upsert_device\<close> calls, each with the clock reading it sees.\<close>

fun upsert_all :: "store \<Rightarrow> (time \<times> device) list \<Rightarrow> store" where
  "upsert_all db [] = db"
| "upsert_all db ((t, d) # us) = upsert_all (snd (upsert_device t db d)) us"

text \<open>The upserts of a run that address the MAC \<open>m\<close>.\<close>

definition upserts_for :: "string \<Rightarrow> (time \<times> device) list \<Rightarrow> (time \<times> device) list" where
  "upserts_for m us = filter (\<lambda>td. lower (mac (snd td)) = lower m) us"

text \<open>
  The specification's reading of a field after a run of upserts: the last non-empty
  value supplied, the empty text when none was non-empty.
\<close>

definition last_nonempty :: "string list \<Rightarrow> string" where
  "last_nonempty xs =
     (let ys = filter (\<lambda>x. x \<noteq> []) xs in if ys = [] then [] else last ys)"

text \<open>What one UPDATE of \<^verbatim>\<open>upsert_device\<close> does to the row it finds.\<close>

definition merge_row :: "device_row \<Rightarrow> time \<times> device \<Rightarrow> device_row" where
  "merge_row r td =
     r\<lparr>r_ip := ip (snd td),
       r_hostname := coalesce (hostname (snd td)) (r_hostname r),
       r_vendor := coalesce (vendor (snd td)) (r_vendor r),
       last_seen := fst td\<rparr>"

text \<open>The row the INSERT of \<^verbatim>\<open>upsert_device\<close> writes.\<close>

definition new_row :: "string \<Rightarrow> time \<Rightarrow> device \<Rightarrow> device_row" where
  "new_row m t d =
     \<lparr>r_mac = m, r_ip = ip d, r_hostname = hostname d, r_vendor = vendor d,
      first_seen = t, last_seen = t, is_known = 0, is_trusted = 0,
      r_notes = None, custom_name = None\<rparr>"

text \<open>Every key of the table is a lowercase text, and is the mac column of its row.\<close>

definition keys_lower :: "store \<Rightarrow> bool" where
  "keys_lower db = (\<forall>k r. devices db k = Some r \<longrightarrow> lower k = k \<and> r_mac r = k)"


section \<open>The change detector (NetworkMonitor.scan_network)\<close>

text \<open>The dataclass \<^verbatim>\<open>DeviceChange\<close>; change_type is one of new, returned, gone, changed.\<close>

record device_change =
  change_type :: string
  device :: device
  previous_state :: "device_row option"
  timestamp :: time

text \<open>
  The state of a \<^verbatim>\<open>NetworkMonitor\<close>. The Python sets \<^verbatim>\<open>_last_scan_devices\<close> and
  \<^verbatim>\<open>current_macs\<close> are lists here: membership is membership in the list, \<^verbatim>\<open>add\<close> is
  \<open>List.insert\<close>, and a loop over the set visits each member once (\<open>remdups\<close>), in an
  order that Python leaves open and no property below depends on. \<open>notified\<close> is what
  \<^verbatim>\<open>_notify\<close> has handed to the registered callbacks; \<^verbatim>\<open>_notify\<close> catches whatever a
  callback raises, so a delivery changes nothing else.
\<close>

record network_monitor =
  db :: store
  scan_interval :: nat
  running :: bool
  notified :: "device_change list"
  current_devices :: "string \<rightharpoonup> device"
  last_scan_devices :: "string list"

text \<open>\<^verbatim>\<open>NetworkMonitor.__init__\<close> over the database file with content \<open>file\<close>.\<close>

definition new_monitor :: "store \<Rightarrow> nat \<Rightarrow> network_monitor" where
  "new_monitor file interval =
     \<lparr>db = file, scan_interval = interval, running = False, notified = [],
      current_devices = Map.empty, last_scan_devices = []\<rparr>"

text \<open>
  A change of the surroundings between two calls: the history table becomes unwritable,
  or writable again.
\<close>

definition set_history_fault :: "bool \<Rightarrow> network_monitor \<Rightarrow> network_monitor" where
  "set_history_fault b st = st\<lparr>db := (db st)\<lparr>history_write_fails := b\<rparr>\<rparr>"

text \<open>The local variables of one call of \<^verbatim>\<open>scan_network\<close>.\<close>

record scan_locals =
  changes :: "device_change list"
  current_macs :: "string list"
  new_count :: nat
  gone_count :: nat

definition notify :: "network_monitor \<Rightarrow> device_change \<Rightarrow> network_monitor" where
  "notify st c = st\<lparr>notified := notified st @ [c]\<rparr>"

text \<open>
  The three statements every branch ends with: \<^verbatim>\<open>changes.append(change)\<close>,
  \<^verbatim>\<open>self._notify(change)\<close>, \<^verbatim>\<open>self.db.log_event(mac, event, ip, details)\<close>. The last one
  may raise; the exception leaves \<^verbatim>\<open>scan_network\<close> with the state as it is then.
\<close>

definition record_change ::
  "time \<Rightarrow> network_monitor \<Rightarrow> scan_locals \<Rightarrow> device_change \<Rightarrow> string \<Rightarrow> string \<Rightarrow> string \<Rightarrow> string
     \<Rightarrow> error option \<times> network_monitor \<times> scan_locals" where
  "record_change now st loc c m ev i det =
     (let loc' = loc\<lparr>changes := changes loc @ [c]\<rparr>;
          st' = notify st c
      in case log_event now (db st') m ev i det of
           Inl e \<Rightarrow> (Some e, st', loc')
         | Inr db' \<Rightarrow> (None, st'\<lparr>db := db'\<rparr>, loc'))"

text \<open>The four changes the detector builds.\<close>

definition new_change :: "time \<Rightarrow> device \<Rightarrow> device_change" where
  "new_change now d =
     \<lparr>change_type = ''new'', device = d, previous_state = None, timestamp = now\<rparr>"

definition returned_change :: "time \<Rightarrow> device \<Rightarrow> device_row \<Rightarrow> device_change" where
  "returned_change now d e =
     \<lparr>change_type = ''returned'', device = d, previous_state = Some e, timestamp = now\<rparr>"

definition changed_change :: "time \<Rightarrow> device \<Rightarrow> device_row \<Rightarrow> device_change" where
  "changed_change now d e =
     \<lparr>change_type = ''changed'', device = d, previous_state = Some e, timestamp = now\<rparr>"

definition gone_change :: "time \<Rightarrow> string \<Rightarrow> device_row \<Rightarrow> device_change" where
  "gone_change now m e =
     \<lparr>change_type = ''gone'',
      device = \<lparr>ip = r_ip e, mac = m, hostname = r_hostname e, vendor = r_vendor e\<rparr>,
      previous_state = None, timestamp = now\<rparr>"

text \<open>
  The body of \<^verbatim>\<open>for device in devices\<close>. All clock readings of one cycle are taken as
  the one instant \<open>now\<close>.
\<close>

definition process_device ::
  "time \<Rightarrow> device \<Rightarrow> network_monitor \<Rightarrow> scan_locals
     \<Rightarrow> error option \<times> network_monitor \<times> scan_locals" where
  "process_device now d st loc =
     (if mac d = [] then (None, st, loc)
      else
        let m = lower (mac d);
            loc1 = loc\<lparr>current_macs := List.insert m (current_macs loc)\<rparr>;
            st1 = st\<lparr>current_devices := (current_devices st)(m \<mapsto> d)\<rparr>;
            existing = get_device (db st1) m;
            up = upsert_device now (db st1) d;
            st2 = st1\<lparr>db := snd up\<rparr>
        in if fst up then
             record_change now st2 (loc1\<lparr>new_count := new_count loc1 + 1\<rparr>)
               (new_change now d) m ''new'' (ip d)
               (''New device: '' @ (if hostname d \<noteq> [] then hostname d else ''unknown''))
           else
             (case existing of
                None \<Rightarrow> (None, st2, loc1)
              | Some e \<Rightarrow>
                  if m \<notin> set (last_scan_devices st2) then
                    record_change now st2 loc1 (returned_change now d e)
                      m ''returned'' (ip d) []
                  else if r_ip e \<noteq> ip d then
                    record_change now st2 loc1 (changed_change now d e)
                      m ''ip_changed'' (ip d) (''IP changed from '' @ r_ip e)
                  else (None, st2, loc1)))"

fun scan_devices ::
  "time \<Rightarrow> device list \<Rightarrow> network_monitor \<Rightarrow> scan_locals
     \<Rightarrow> error option \<times> network_monitor \<times> scan_locals" where
  "scan_devices now [] st loc = (None, st, loc)"
| "scan_devices now (d # ds) st loc =
     (case process_device now d st loc of
        (Some e, st', loc') \<Rightarrow> (Some e, st', loc')
      | (None, st', loc') \<Rightarrow> scan_devices now ds st' loc')"

text \<open>The body of \<^verbatim>\<open>for mac in self._last_scan_devices\<close> and the loop itself.\<close>

definition gone_device ::
  "time \<Rightarrow> string \<Rightarrow> network_monitor \<Rightarrow> scan_locals
     \<Rightarrow> error option \<times> network_monitor \<times> scan_locals" where
  "gone_device now m st loc =
     (if m \<in> set (current_macs loc) then (None, st, loc)
      else
        let loc1 = loc\<lparr>gone_count := gone_count loc + 1\<rparr> in
        case get_device (db st) m of
          None \<Rightarrow> (None, st, loc1)
        | Some e \<Rightarrow>
            record_change now st loc1 (gone_change now m e) m ''gone'' (r_ip e) [])"

fun check_gone ::
  "time \<Rightarrow> string list \<Rightarrow> network_monitor \<Rightarrow> scan_locals
     \<Rightarrow> error option \<times> network_monitor \<times> scan_locals" where
  "check_gone now [] st loc = (None, st, loc)"
| "check_gone now (m # ms) st loc =
     (case gone_device now m st loc of
        (Some e, st', loc') \<Rightarrow> (Some e, st', loc')
      | (None, st', loc') \<Rightarrow> check_gone now ms st' loc')"

text \<open>
  \<^verbatim>\<open>scan_network\<close> from the point where the device list of the pass is known: \<open>devs\<close> is
  what the ARP table, the optional ping sweep and the hostname and vendor lookups have
  produced. The result is the returned change list, or the exception that left the
  call, together with the monitor as the call leaves it.
\<close>

definition scan_network ::
  "time \<Rightarrow> device list \<Rightarrow> network_monitor \<Rightarrow> (error + device_change list) \<times> network_monitor" where
  "scan_network now devs st =
     (case scan_devices now devs st
             \<lparr>changes = [], current_macs = [], new_count = 0, gone_count = 0\<rparr> of
        (Some e, st1, loc1) \<Rightarrow> (Inl e, st1)
      | (None, st1, loc1) \<Rightarrow>
          (case check_gone now (remdups (last_scan_devices st1)) st1 loc1 of
             (Some e, st2, loc2) \<Rightarrow> (Inl e, st2)
           | (None, st2, loc2) \<Rightarrow>
               (Inr (changes loc2),
                st2\<lparr>last_scan_devices := current_macs loc2,
                    db := log_scan now (db st2) (length devs) (new_count loc2)
                            (gone_count loc2) ''monitor''\<rparr>)))"

text \<open>Successive calls of \<^verbatim>\<open>scan_network\<close> on one monitor, each with its time and device list.\<close>

fun scan_cycles ::
  "network_monitor \<Rightarrow> (time \<times> device list) list
     \<Rightarrow> (error + device_change list) list \<times> network_monitor" where
  "scan_cycles st [] = ([], st)"
| "scan_cycles st ((now, devs) # cs) =
     (let (r, st1) = scan_network now devs st;
          (rs, st2) = scan_cycles st1 cs
      in (r # rs, st2))"

text \<open>The changes of one type about one MAC, and the devices of a pass that carry a MAC.\<close>

definition changes_for :: "string \<Rightarrow> string \<Rightarrow> device_change list \<Rightarrow> device_change list" where
  "changes_for ty m cs =
     filter (\<lambda>c. change_type c = ty \<and> lower (mac (device c)) = m) cs"

definition entries_for :: "string \<Rightarrow> device list \<Rightarrow> device list" where
  "entries_for m devs = filter (\<lambda>d. mac d \<noteq> [] \<and> lower (mac d) = m) devs"

text \<open>
  What the entries of one MAC yield in turn in the first loop, from the row \<open>r\<close> the
  store holds for that MAC and from whether the MAC is in the previous live set.
\<close>

fun mac_changes :: "time \<Rightarrow> device_row option \<Rightarrow> bool \<Rightarrow> device list \<Rightarrow> device_change list" where
  "mac_changes now r seen [] = []"
| "mac_changes now None seen (d # ds) =
     new_change now d # mac_changes now (Some (new_row (lower (mac d)) now d)) seen ds"
| "mac_changes now (Some e) seen (d # ds) =
     (if \<not> seen then [returned_change now d e]
      else if r_ip e \<noteq> ip d then [changed_change now d e] else [])
     @ mac_changes now (Some (merge_row e (now, d))) seen ds"

text \<open>Every member of a live set is a lowercase text, as \<^verbatim>\<open>scan_network\<close> writes them.\<close>

definition lower_macs :: "string list \<Rightarrow> bool" where
  "lower_macs ms = (\<forall>k \<in> set ms. lower k = k)"


text \<open>
  What an entry of the device list yields, read off the monitor as the entry finds it:
  the change of the branch that \<^verbatim>\<open>scan_network\<close> takes for it, or nothing.
\<close>

definition detect :: "time \<Rightarrow> network_monitor \<Rightarrow> device \<Rightarrow> device_change list" where
  "detect now st d =
     (if mac d = [] then []
      else case get_device (db st) (mac d) of
             None \<Rightarrow> [new_change now d]
           | Some e \<Rightarrow>
               if lower (mac d) \<notin> set (last_scan_devices st) then [returned_change now d e]
               else if r_ip e \<noteq> ip d then [changed_change now d e] else [])"

text \<open>
  What the second loop yields over the members \<open>ks\<close> of the previous live set, given
  the MACs \<open>cur\<close> seen in this pass: a gone change for each member that is not in
  \<open>cur\<close> and has a row.
\<close>

definition gone_changes :: "time \<Rightarrow> store \<Rightarrow> string list \<Rightarrow> string list \<Rightarrow> device_change list" where
  "gone_changes now sto cur ks =
     concat (map (\<lambda>k. if k \<in> set cur then []
                        else case get_device sto k of
                               None \<Rightarrow> []
                             | Some e \<Rightarrow> [gone_change now k e]) ks)"



text \<open>The MACs a device list carries, each as the key the monitor uses.\<close>

definition seen_macs :: "device list \<Rightarrow> string list" where
  "seen_macs devs = map (\<lambda>d. lower (mac d)) (filter (\<lambda>d. mac d \<noteq> []) devs)"


section \<open>The monitor loop (NetworkMonitor.monitor_loop, NetworkMonitor.stop)\<close>

definition stop :: "network_monitor \<Rightarrow> network_monitor" where
  "stop st = st\<lparr>running := False\<rparr>"

text \<open>
  What reaches the loop from outside while it waits in an \<^verbatim>\<open>await\<close>: nothing, a call
  of \<^verbatim>\<open>stop()\<close> (from a callback or the SIGINT handler of \<^verbatim>\<open>main\<close>), or the cancellation of
  the task, each with the number of seconds since the wait began.
\<close>

datatype interruption = Nothing | StopCall nat | CancelCall nat

text \<open>
  The surroundings of one round of the loop: the clock reading and the device list of its
  scan, and what arrives during its sleep and during its scan.
\<close>

record cycle_env =
  c_now :: time
  c_devices :: "device list"
  c_sleep :: interruption
  c_scan :: interruption

text \<open>What the loop did, in order, with the seconds each sleep lasted.\<close>

datatype step = Slept nat | Scanned "error + device_change list"

datatype outcome = Returned | Raised error | StillRunning

text \<open>
  \<^verbatim>\<open>await self.scan_network(target)\<close> inside the loop. The only suspension points of
  \<^verbatim>\<open>scan_network\<close> are in the discovery that precedes change detection, so a cancellation
  raises \<^verbatim>\<open>CancelledError\<close> before the monitor is touched; \<^verbatim>\<open>stop()\<close> only clears the flag.
\<close>

definition loop_scan ::
  "cycle_env \<Rightarrow> network_monitor \<Rightarrow> (error + device_change list) \<times> network_monitor" where
  "loop_scan e st =
     (case c_scan e of
        CancelCall t \<Rightarrow> (Inl CancelledError, st)
      | StopCall t \<Rightarrow> scan_network (c_now e) (c_devices e) (stop st)
      | Nothing \<Rightarrow> scan_network (c_now e) (c_devices e) st)"

text \<open>
  \<^verbatim>\<open>await asyncio.sleep(self.scan_interval)\<close>: the seconds it lasts and the monitor after
  it, or the cancellation. A call of \<^verbatim>\<open>stop()\<close> clears the flag and leaves the sleep alone.
\<close>

definition loop_sleep :: "cycle_env \<Rightarrow> network_monitor \<Rightarrow> nat \<times> network_monitor option" where
  "loop_sleep e st =
     (case c_sleep e of
        CancelCall t \<Rightarrow> (min t (scan_interval st), None)
      | StopCall t \<Rightarrow> (scan_interval st, Some (stop st))
      | Nothing \<Rightarrow> (scan_interval st, Some st))"

text \<open>
  The \<^verbatim>\<open>while self.running\<close> loop over the rounds the surroundings provide. The flag is
  read at the head of a round only. \<^verbatim>\<open>CancelledError\<close> breaks out of the loop; any other
  exception of a scan is logged and the loop goes on.
\<close>

fun monitor_rounds ::
  "network_monitor \<Rightarrow> cycle_env list \<Rightarrow> outcome \<times> step list \<times> network_monitor" where
  "monitor_rounds st [] = (if running st then StillRunning else Returned, [], st)"
| "monitor_rounds st (e # es) =
     (if \<not> running st then (Returned, [], st)
      else
        case loop_sleep e st of
          (secs, None) \<Rightarrow> (Returned, [Slept secs], st)
        | (secs, Some st1) \<Rightarrow>
            (case loop_scan e st1 of
               (Inl CancelledError, st2) \<Rightarrow>
                 (Returned, [Slept secs, Scanned (Inl CancelledError)], st2)
             | (r, st2) \<Rightarrow>
                 (case monitor_rounds st2 es of
                    (out, tr, st3) \<Rightarrow> (out, Slept secs # Scanned r # tr, st3))))"

text \<open>
  \<^verbatim>\<open>monitor_loop\<close>: the flag is set, the initial scan runs outside any handler, then the
  rounds.
\<close>

definition monitor_loop ::
  "network_monitor \<Rightarrow> cycle_env \<Rightarrow> cycle_env list \<Rightarrow> outcome \<times> step list \<times> network_monitor" where
  "monitor_loop st e0 es =
     (case loop_scan e0 (st\<lparr>running := True\<rparr>) of
        (Inl err, st1) \<Rightarrow> (Raised err, [Scanned (Inl err)], st1)
      | (Inr chs, st1) \<Rightarrow>
          (case monitor_rounds st1 es of
             (out, tr, st2) \<Rightarrow> (out, Scanned (Inr chs) # tr, st2)))"


section \<open>The target enumerator (AsyncScanner.expand_cidr, AsyncScanner.expand_range)\<close>

text \<open>
  The two functions call the standard library's \<^verbatim>\<open>ipaddress\<close> module. An address is its
  family and its integer; the parsers, the enumeration of a network and the printing of
  an address are what the module provides, and the model takes them as given.
\<close>

datatype ip_address = IPv4Address nat | IPv6Address nat

fun int_of :: "ip_address \<Rightarrow> nat" where
  "int_of (IPv4Address n) = n"
| "int_of (IPv6Address n) = n"

text \<open>\<^verbatim>\<open>ipaddress.ip_address(n)\<close> for an integer: IPv4 below \<open>2 ^ 32\<close>, IPv6 below \<open>2 ^ 128\<close>.\<close>

definition address_of_int :: "nat \<Rightarrow> error + ip_address" where
  "address_of_int n =
     (if n < 2 ^ 32 then Inr (IPv4Address n)
      else if n < 2 ^ 128 then Inr (IPv6Address n)
      else Inl ValueError)"

text \<open>The address of an integer below \<open>2 ^ 128\<close>.\<close>

definition address_of :: "nat \<Rightarrow> ip_address" where
  "address_of n = (if n < 2 ^ 32 then IPv4Address n else IPv6Address n)"

record 'n ipaddress_module =
  ip_network :: "string \<Rightarrow> error + 'n"
  hosts :: "'n \<Rightarrow> ip_address list"
  addresses :: "'n \<Rightarrow> ip_address list"
  ip_address :: "string \<Rightarrow> error + ip_address"
  str :: "ip_address \<Rightarrow> string"

text \<open>\<^verbatim>\<open>except ValueError as e: self.log(...); return []\<close>; any other exception leaves the call.\<close>

definition on_value_error :: "error \<Rightarrow> error + string list" where
  "on_value_error e = (if e = ValueError then Inr [] else Inl e)"

definition expand_cidr :: "'n ipaddress_module \<Rightarrow> string \<Rightarrow> bool \<Rightarrow> error + string list" where
  "expand_cidr lib cidr hosts_only =
     (case ip_network lib cidr of
        Inl e \<Rightarrow> on_value_error e
      | Inr network \<Rightarrow>
          if hosts_only then Inr (map (str lib) (hosts lib network))
          else Inr (map (str lib) (addresses lib network)))"

text \<open>The results of a comprehension whose element expression may raise.\<close>

fun collect :: "(error + 'a) list \<Rightarrow> error + 'a list" where
  "collect [] = Inr []"
| "collect (Inl e # rs) = Inl e"
| "collect (Inr x # rs) = (case collect rs of Inl e \<Rightarrow> Inl e | Inr xs \<Rightarrow> Inr (x # xs))"

definition expand_range :: "'n ipaddress_module \<Rightarrow> string \<Rightarrow> string \<Rightarrow> error + string list" where
  "expand_range lib start_ip end_ip =
     (case ip_address lib start_ip of
        Inl e \<Rightarrow> on_value_error e
      | Inr start \<Rightarrow>
          (case ip_address lib end_ip of
             Inl e \<Rightarrow> on_value_error e
           | Inr end_addr \<Rightarrow>
               (case collect (map address_of_int [int_of start ..< int_of end_addr + 1]) of
                  Inl e \<Rightarrow> on_value_error e
                | Inr ips \<Rightarrow> Inr (map (str lib) ips))))"

subsection \<open>The module on address texts\<close>

text \<open>
  An instance of the module for the examples, after CPython 3.11. Addresses are read as
  \<^verbatim>\<open>ipaddress.ip_address\<close> reads them: dotted-quad IPv4 texts, and IPv6 texts of
  hexadecimal groups with at most one \<^verbatim>\<open>::\<close>, an optional dotted quad in the last place
  and an optional scope id. Networks are dotted-quad IPv4 texts with an optional prefix
  length, read as \<^verbatim>\<open>ip_network(text, strict=False)\<close> reads them; every other network
  text is rejected with \<^verbatim>\<open>ValueError\<close> (the module itself also reads netmasks and IPv6
  networks).
\<close>

fun split_on :: "char \<Rightarrow> string \<Rightarrow> string list" where
  "split_on c [] = [[]]"
| "split_on c (x # xs) =
     (if x = c then [] # split_on c xs
      else case split_on c xs of
             [] \<Rightarrow> [[x]]
           | w # ws \<Rightarrow> (x # w) # ws)"

definition digit_val :: "char \<Rightarrow> nat option" where
  "digit_val c =
     (let n = (of_char c :: nat) in if 48 \<le> n \<and> n \<le> 57 then Some (n - 48) else None)"

fun decimal_from :: "nat \<Rightarrow> string \<Rightarrow> nat option" where
  "decimal_from acc [] = Some acc"
| "decimal_from acc (c # cs) =
     (case digit_val c of None \<Rightarrow> None | Some v \<Rightarrow> decimal_from (10 * acc + v) cs)"

definition decimal :: "string \<Rightarrow> nat option" where
  "decimal s = (if s = [] then None else decimal_from 0 s)"

text \<open>An octet: one to three digits, no leading zero, at most 255.\<close>

definition octet :: "string \<Rightarrow> nat option" where
  "octet s =
     (case decimal s of
        None \<Rightarrow> None
      | Some n \<Rightarrow>
          if length s \<le> 3 \<and> (length s = 1 \<or> hd s \<noteq> CHR ''0'') \<and> n \<le> 255 then Some n
          else None)"

definition ipv4_address :: "string \<Rightarrow> error + ip_address" where
  "ipv4_address s =
     (case map octet (split_on CHR ''.'' s) of
        [Some a, Some b, Some c, Some d] \<Rightarrow>
          Inr (IPv4Address (((a * 256 + b) * 256 + c) * 256 + d))
      | _ \<Rightarrow> Inl ValueError)"

text \<open>A network is its first address and its prefix length; host bits are masked away.\<close>

definition ipv4_network :: "string \<Rightarrow> error + nat \<times> nat" where
  "ipv4_network s =
     (case split_on CHR ''/'' s of
        [a] \<Rightarrow>
          (case ipv4_address a of Inl e \<Rightarrow> Inl e | Inr ad \<Rightarrow> Inr (int_of ad, 32))
      | [a, p] \<Rightarrow>
          (case ipv4_address a of
             Inl e \<Rightarrow> Inl e
           | Inr ad \<Rightarrow>
               (case decimal p of
                  None \<Rightarrow> Inl ValueError
                | Some l \<Rightarrow>
                    if l \<le> 32 then Inr (int_of ad - int_of ad mod 2 ^ (32 - l), l)
                    else Inl ValueError))
      | _ \<Rightarrow> Inl ValueError)"

definition ipv4_addresses :: "nat \<times> nat \<Rightarrow> ip_address list" where
  "ipv4_addresses n = map IPv4Address [fst n ..< fst n + 2 ^ (32 - snd n)]"

text \<open>\<^verbatim>\<open>hosts()\<close>: all but the first and last address, except for prefix lengths 31 and 32.\<close>

definition ipv4_hosts :: "nat \<times> nat \<Rightarrow> ip_address list" where
  "ipv4_hosts n =
     (if 31 \<le> snd n then ipv4_addresses n
      else map IPv4Address [fst n + 1 ..< fst n + 2 ^ (32 - snd n) - 1])"

definition digit_char :: "nat \<Rightarrow> char" where
  "digit_char n = ''0123456789'' ! (n mod 10)"

text \<open>The decimal text of a number below 1000, as the octets of an address are.\<close>

definition show_octet :: "nat \<Rightarrow> string" where
  "show_octet n =
     (if n < 10 then [digit_char n]
      else if n < 100 then [digit_char (n div 10), digit_char (n mod 10)]
      else [digit_char (n div 100), digit_char (n div 10 mod 10), digit_char (n mod 10)])"

definition ipv4_str :: "ip_address \<Rightarrow> string" where
  "ipv4_str a =
     (let n = int_of a in
      show_octet (n div 16777216 mod 256) @ ''.'' @ show_octet (n div 65536 mod 256) @ ''.'' @
      show_octet (n div 256 mod 256) @ ''.'' @ show_octet (n mod 256))"

text \<open>IPv6 texts: groups of one to four hexadecimal digits, in either case.\<close>

definition hex_val :: "char \<Rightarrow> nat option" where
  "hex_val c =
     (let n = (of_char c :: nat) in
      if 48 \<le> n \<and> n \<le> 57 then Some (n - 48)
      else if 97 \<le> n \<and> n \<le> 102 then Some (n - 87)
      else if 65 \<le> n \<and> n \<le> 70 then Some (n - 55)
      else None)"

fun hex_from :: "nat \<Rightarrow> string \<Rightarrow> nat option" where
  "hex_from acc [] = Some acc"
| "hex_from acc (c # cs) =
     (case hex_val c of None \<Rightarrow> None | Some v \<Rightarrow> hex_from (16 * acc + v) cs)"

definition hextet :: "string \<Rightarrow> nat option" where
  "hextet s = (if s = [] \<or> 4 < length s then None else hex_from 0 s)"

text \<open>The number that a run of groups spells, most significant group first.\<close>

fun hextets_from :: "nat \<Rightarrow> string list \<Rightarrow> nat option" where
  "hextets_from acc [] = Some acc"
| "hextets_from acc (p # ps) =
     (case hextet p of None \<Rightarrow> None | Some v \<Rightarrow> hextets_from (65536 * acc + v) ps)"

text \<open>A number below \<open>2 ^ 16\<close> in lowercase hexadecimal without leading zeros (\<^verbatim>\<open>'%x'\<close>).\<close>

definition hex_char :: "nat \<Rightarrow> char" where
  "hex_char n = ''0123456789abcdef'' ! (n mod 16)"

definition show_hextet :: "nat \<Rightarrow> string" where
  "show_hextet n =
     (if n < 16 then [hex_char n]
      else if n < 256 then [hex_char (n div 16), hex_char n]
      else if n < 4096 then [hex_char (n div 256), hex_char (n div 16), hex_char n]
      else [hex_char (n div 4096), hex_char (n div 256), hex_char (n div 16), hex_char n])"

text \<open>
  The parts of an IPv6 text between its colons, at least three; a last part with a dot
  is an IPv4 address and is replaced by its two groups.
\<close>

definition ipv6_parts :: "string \<Rightarrow> string list option" where
  "ipv6_parts s =
     (let parts = split_on CHR '':'' s in
      if length parts < 3 then None
      else if CHR ''.'' \<in> set (last parts) then
        (case ipv4_address (last parts) of
           Inl e \<Rightarrow> None
         | Inr a \<Rightarrow>
             Some (butlast parts @
                   [show_hextet (int_of a div 65536 mod 65536), show_hextet (int_of a mod 65536)]))
      else Some parts)"

text \<open>
  The integer of an IPv6 text, as \<^verbatim>\<open>IPv6Address._ip_int_from_string\<close> finds it: at most
  nine parts; an empty part strictly inside marks the \<^verbatim>\<open>::\<close>, of which there is at most
  one; an empty first or last part must belong to it; the \<^verbatim>\<open>::\<close> stands for at least
  one group; without it there are eight groups.
\<close>

definition ipv6_int :: "string \<Rightarrow> nat option" where
  "ipv6_int s =
     (case ipv6_parts s of
        None \<Rightarrow> None
      | Some parts \<Rightarrow>
          (let n = length parts in
           if 9 < n then None
           else
             case filter (\<lambda>i. parts ! i = []) [1 ..< n - 1] of
               [] \<Rightarrow> if n = 8 then hextets_from 0 parts else None
             | [k] \<Rightarrow>
                 (let hi = (if parts ! 0 = [] then k - 1 else k);
                      lo = (if parts ! (n - 1) = [] then n - k - 2 else n - k - 1)
                  in if (parts ! 0 = [] \<and> hi \<noteq> 0) \<or> (parts ! (n - 1) = [] \<and> lo \<noteq> 0) \<or>
                        8 \<le> hi + lo
                     then None
                     else
                       case (hextets_from 0 (take hi parts),
                             hextets_from 0 (drop (n - lo) parts)) of
                         (Some h, Some l) \<Rightarrow> Some (h * 2 ^ (16 * (8 - hi)) + l)
                       | _ \<Rightarrow> None)
             | _ \<Rightarrow> None))"

text \<open>
  \<^verbatim>\<open>IPv6Address(text)\<close>: no slash anywhere; a percent sign ends the address and starts
  the scope id, which is not empty and holds no further percent sign. The scope id has
  no part in the integer of the address.
\<close>

definition ipv6_address :: "string \<Rightarrow> error + ip_address" where
  "ipv6_address s =
     (if CHR ''/'' \<in> set s then Inl ValueError
      else
        let addr = takeWhile (\<lambda>c. c \<noteq> CHR ''%'') s;
            rest = dropWhile (\<lambda>c. c \<noteq> CHR ''%'') s
        in if rest \<noteq> [] \<and> (tl rest = [] \<or> CHR ''%'' \<in> set (tl rest)) then Inl ValueError
           else case ipv6_int addr of
                  None \<Rightarrow> Inl ValueError
                | Some n \<Rightarrow> Inr (IPv6Address n))"

text \<open>\<^verbatim>\<open>ipaddress.ip_address(text)\<close>: an IPv4 address if the text is one, else an IPv6 one.\<close>

definition text_address :: "string \<Rightarrow> error + ip_address" where
  "text_address s =
     (case ipv4_address s of
        Inr a \<Rightarrow> Inr a
      | Inl e \<Rightarrow> ipv6_address s)"

text \<open>
  The text of an IPv6 address: its eight groups in lowercase hexadecimal without leading
  zeros, the first longest run of two or more zero groups replaced by \<^verbatim>\<open>::\<close>.
\<close>

definition hextets_of :: "nat \<Rightarrow> nat list" where
  "hextets_of n = map (\<lambda>i. n div 2 ^ (16 * (7 - i)) mod 65536) [0 ..< 8]"

fun join_colon :: "string list \<Rightarrow> string" where
  "join_colon [] = []"
| "join_colon [p] = p"
| "join_colon (p # q # ps) = p @ '':'' @ join_colon (q # ps)"

definition zero_run :: "nat list \<Rightarrow> nat \<Rightarrow> nat" where
  "zero_run hs i = length (takeWhile (\<lambda>h. h = 0) (drop i hs))"

definition ipv6_str :: "nat \<Rightarrow> string" where
  "ipv6_str n =
     (let hs = hextets_of n;
          best = foldr max (map (zero_run hs) [0 ..< 8]) 0;
          start = length (takeWhile (\<lambda>i. zero_run hs i \<noteq> best) [0 ..< 8])
      in if best \<le> 1 then join_colon (map show_hextet hs)
         else join_colon
                ((if start = 0 then [[]] else []) @ map show_hextet (take start hs) @ [[]] @
                 map show_hextet (drop (start + best) hs) @
                 (if start + best = 8 then [[]] else [])))"

definition address_str :: "ip_address \<Rightarrow> string" where
  "address_str a = (case a of IPv4Address n \<Rightarrow> ipv4_str a | IPv6Address n \<Rightarrow> ipv6_str n)"

definition stdlib :: "(nat \<times> nat) ipaddress_module" where
  "stdlib =
     \<lparr>ip_network = ipv4_network, hosts = ipv4_hosts, addresses = ipv4_addresses,
      ip_address = text_address, str = address_str\<rparr>"

section \<open>The probe executor (AsyncScanner.ping_host, AsyncScanner.ping_sweep)\<close>

text \<open>
  How the probe of one \<^verbatim>\<open>ping_host\<close> ends: the ping process exits with a return code,
  \<^verbatim>\<open>wait_for\<close> times out, or something else raises. Every end leaves the
  \<^verbatim>\<open>async with self.semaphore\<close> block, which releases the semaphore.
\<close>

datatype probe_end = Exited int | TimedOut | Failed

text \<open>
  A \<^verbatim>\<open>ping_host\<close> task: created by \<^verbatim>\<open>gather\<close>, waiting in \<^verbatim>\<open>acquire\<close>, inside the
  \<^verbatim>\<open>async with\<close> block with its probe in flight, or finished with what it returns.
\<close>

datatype task_state = Created | Waiting | Probing | Finished "device option"

text \<open>A sweep: the value of the semaphore and, for each target in order, its task.\<close>

record sweep =
  permits :: nat
  tasks :: "(string \<times> task_state) list"

text \<open>The default of \<^verbatim>\<open>max_concurrent\<close> in \<^verbatim>\<open>AsyncScanner.__init__\<close>.\<close>

definition default_max_concurrent :: int where
  "default_max_concurrent = 100"

text \<open>
  \<^verbatim>\<open>ping_sweep\<close> up to \<^verbatim>\<open>gather\<close>: \<^verbatim>\<open>asyncio.Semaphore(n)\<close> raises \<^verbatim>\<open>ValueError\<close> for a
  negative \<open>n\<close>; then one task per target.
\<close>

definition ping_sweep_start :: "int \<Rightarrow> string list \<Rightarrow> error + sweep" where
  "ping_sweep_start max_concurrent targets =
     (if max_concurrent < 0 then Inl ValueError
      else Inr \<lparr>permits = nat max_concurrent, tasks = map (\<lambda>t. (t, Created)) targets\<rparr>)"

definition ping_result :: "string \<Rightarrow> probe_end \<Rightarrow> device option" where
  "ping_result target pe =
     (case pe of
        Exited rc \<Rightarrow>
          if rc = 0 then Some \<lparr>ip = target, mac = [], hostname = [], vendor = []\<rparr> else None
      | TimedOut \<Rightarrow> None
      | Failed \<Rightarrow> None)"

text \<open>
  What the event loop does next: it runs the task at a position up to its next
  suspension, or the probe of the task at a position ends. A task that reaches
  \<^verbatim>\<open>acquire\<close> passes when the semaphore's value is positive and waits otherwise; the end
  of a probe releases the semaphore. An event that does not apply leaves the sweep as it
  is.
\<close>

datatype event = Resume nat | Complete nat probe_end

definition sweep_step :: "sweep \<Rightarrow> event \<Rightarrow> sweep" where
  "sweep_step s ev =
     (case ev of
        Resume i \<Rightarrow>
          if i < length (tasks s) \<and> snd (tasks s ! i) \<in> {Created, Waiting} then
            if 0 < permits s then
              s\<lparr>permits := permits s - 1,
                tasks := (tasks s)[i := (fst (tasks s ! i), Probing)]\<rparr>
            else s\<lparr>tasks := (tasks s)[i := (fst (tasks s ! i), Waiting)]\<rparr>
          else s
      | Complete i pe \<Rightarrow>
          if i < length (tasks s) \<and> snd (tasks s ! i) = Probing then
            s\<lparr>permits := permits s + 1,
              tasks := (tasks s)[i := (fst (tasks s ! i),
                                      Finished (ping_result (fst (tasks s ! i)) pe))]\<rparr>
          else s)"

definition run_sweep :: "sweep \<Rightarrow> event list \<Rightarrow> sweep" where
  "run_sweep s evs = foldl sweep_step s evs"

text \<open>The number of probes in flight.\<close>

definition in_flight :: "sweep \<Rightarrow> nat" where
  "in_flight s = length (filter (\<lambda>t. snd t = Probing) (tasks s))"


chapter \<open>Properties\<close>

section \<open>The device store\<close>

subsection \<open>Lowercase keys\<close>

lemma lower_char_idem: "lower_char (lower_char c) = lower_char c"
  by (auto simp: lower_char_def Let_def)

lemma lower_idem [simp]: "lower (lower s) = lower s"
  by (simp add: lower_def lower_char_idem)

lemma lower_Nil [simp]: "lower [] = []"
  by (simp add: lower_def)

lemma lower_eq_Nil [simp]: "(lower s = []) = (s = [])"
  by (simp add: lower_def)

lemma keys_lower_empty: "keys_lower empty_store"
  by (simp add: keys_lower_def empty_store_def)

lemma keys_lower_update:
  "keys_lower sto \<Longrightarrow> (\<And>r. r_mac (f r) = r_mac r) \<Longrightarrow> keys_lower (update_where_mac sto k f)"
  by (auto simp: keys_lower_def update_where_mac_def split: option.splits if_splits)

lemma keys_lower_upsert: "keys_lower sto \<Longrightarrow> keys_lower (snd (upsert_device now sto d))"
proof (cases "get_device sto (lower (mac d))")
  case None
  assume "keys_lower sto"
  with None show ?thesis
    by (auto simp: upsert_device_def keys_lower_def Let_def split: if_splits)
next
  case (Some r)
  assume "keys_lower sto"
  then have "keys_lower (update_where_mac sto (lower (mac d)) (\<lambda>r. merge_row r (now, d)))"
    by (rule keys_lower_update) (simp add: merge_row_def)
  with Some show ?thesis
    by (simp add: upsert_device_def Let_def merge_row_def)
qed

lemma upsert_lower_mac:
  "upsert_device now sto (d\<lparr>mac := lower (mac d)\<rparr>) = upsert_device now sto d"
  by (simp add: upsert_device_def Let_def split: option.splits)

text \<open>
  C10. Every operation of the store that takes a MAC lowercases it before use:
  \<open>get_device\<close>, \<open>upsert_device\<close>, \<open>mark_known\<close>, \<open>mark_trusted\<close>,
  \<open>set_custom_name\<close>, \<open>log_event\<close> and \<open>get_device_history\<close> give the same result
  on a MAC text and on its lowercase form. The table starts with no key, and each
  operation that writes the table keeps every key lowercase.
\<close>

theorem store_mac_case_insensitive:
  "get_device sto (lower m) = get_device sto m \<and>
   upsert_device now sto (d\<lparr>mac := lower (mac d)\<rparr>) = upsert_device now sto d \<and>
   mark_known sto (lower m) known = mark_known sto m known \<and>
   mark_trusted sto (lower m) trusted = mark_trusted sto m trusted \<and>
   set_custom_name sto (lower m) name = set_custom_name sto m name \<and>
   log_event now sto (lower m) ev i det = log_event now sto m ev i det \<and>
   get_device_history sto (lower m) limit = get_device_history sto m limit \<and>
   keys_lower empty_store \<and>
   (keys_lower sto \<longrightarrow>
      keys_lower (snd (upsert_device now sto d)) \<and>
      keys_lower (mark_known sto m known) \<and>
      keys_lower (mark_trusted sto m trusted) \<and>
      keys_lower (set_custom_name sto m name))"
proof -
  have upd: "keys_lower sto \<longrightarrow>
      keys_lower (snd (upsert_device now sto d)) \<and>
      keys_lower (mark_known sto m known) \<and>
      keys_lower (mark_trusted sto m trusted) \<and>
      keys_lower (set_custom_name sto m name)"
    by (simp add: keys_lower_upsert keys_lower_update mark_known_def mark_trusted_def
        set_custom_name_def)
  show ?thesis
    using upd
    by (simp add: get_device_def upsert_lower_mac mark_known_def mark_trusted_def
        set_custom_name_def log_event_def get_device_history_def keys_lower_empty)
qed

lemma lower_example: "lower ''AA:BB:CC:00:11:22'' = ''aa:bb:cc:00:11:22''"
  by code_simp

theorem store_mac_case_insensitive_witness:
  "keys_lower empty_store \<and>
   keys_lower (snd (upsert_device 7 empty_store
      \<lparr>ip = ''10.0.0.5'', mac = ''AA:BB:CC:00:11:22'', hostname = ''nas'', vendor = []\<rparr>)) \<and>
   get_device (snd (upsert_device 7 empty_store
      \<lparr>ip = ''10.0.0.5'', mac = ''AA:BB:CC:00:11:22'', hostname = ''nas'', vendor = []\<rparr>))
      ''AA:BB:CC:00:11:22'' \<noteq> None"
proof -
  let ?d = "\<lparr>ip = ''10.0.0.5'', mac = ''AA:BB:CC:00:11:22'', hostname = ''nas'', vendor = []\<rparr>"
  let ?sto = "snd (upsert_device 7 empty_store ?d)"
  note t = store_mac_case_insensitive [of empty_store "''AA:BB:CC:00:11:22''" 7 ?d]
  from t have e: "keys_lower empty_store" by simp
  with t have k: "keys_lower ?sto" by simp
  have "get_device ?sto (lower ''AA:BB:CC:00:11:22'') \<noteq> None"
    by (simp add: upsert_device_def get_device_def empty_store_def Let_def)
  moreover have "get_device ?sto (lower ''AA:BB:CC:00:11:22'') = get_device ?sto ''AA:BB:CC:00:11:22''"
    using store_mac_case_insensitive [of ?sto "''AA:BB:CC:00:11:22''"] by simp
  ultimately show ?thesis using e k by simp
qed

subsection \<open>What a run of upserts leaves in a row\<close>

lemma upsert_other:
  "lower (mac d) \<noteq> lower m \<Longrightarrow> get_device (snd (upsert_device t sto d)) m = get_device sto m"
  by (simp add: upsert_device_def get_device_def update_where_mac_def Let_def split: option.splits)

lemma upsert_same_existing:
  "get_device sto m = Some r \<Longrightarrow> lower (mac d) = lower m \<Longrightarrow>
   get_device (snd (upsert_device t sto d)) m = Some (merge_row r (t, d))"
  by (simp add: upsert_device_def get_device_def update_where_mac_def Let_def merge_row_def
      split: option.splits)

lemma upsert_same_new:
  "get_device sto m = None \<Longrightarrow> lower (mac d) = lower m \<Longrightarrow>
   get_device (snd (upsert_device t sto d)) m = Some (new_row (lower m) t d)"
  by (simp add: upsert_device_def get_device_def update_where_mac_def Let_def new_row_def
      split: option.splits)

lemma upsert_returns_new:
  "fst (upsert_device t sto d) = (get_device sto (mac d) = None)"
  by (simp add: upsert_device_def get_device_def Let_def split: option.splits)

lemma upsert_all_existing:
  "get_device sto m = Some r \<Longrightarrow>
   get_device (upsert_all sto us) m = Some (foldl merge_row r (upserts_for m us))"
proof (induction us arbitrary: sto r)
  case Nil
  then show ?case by (simp add: upserts_for_def)
next
  case (Cons td us)
  obtain t d where td: "td = (t, d)" by (cases td)
  show ?case
  proof (cases "lower (mac d) = lower m")
    case True
    from upsert_same_existing [OF Cons.prems True]
    have "get_device (snd (upsert_device t sto d)) m = Some (merge_row r (t, d))" .
    from Cons.IH [OF this] show ?thesis using True td by (simp add: upserts_for_def)
  next
    case False
    then have "get_device (snd (upsert_device t sto d)) m = Some r"
      using Cons.prems by (simp add: upsert_other)
    from Cons.IH [OF this] show ?thesis using False td by (simp add: upserts_for_def)
  qed
qed

lemma upsert_all_new:
  "get_device sto m = None \<Longrightarrow> upserts_for m us \<noteq> [] \<Longrightarrow>
   get_device (upsert_all sto us) m =
     Some (foldl merge_row
            (new_row (lower m) (fst (hd (upserts_for m us))) (snd (hd (upserts_for m us))))
            (tl (upserts_for m us)))"
proof (induction us arbitrary: sto)
  case Nil
  then show ?case by (simp add: upserts_for_def)
next
  case (Cons td us)
  obtain t d where td: "td = (t, d)" by (cases td)
  show ?case
  proof (cases "lower (mac d) = lower m")
    case True
    from upsert_same_new [OF Cons.prems(1) True]
    have "get_device (snd (upsert_device t sto d)) m = Some (new_row (lower m) t d)" .
    from upsert_all_existing [OF this] show ?thesis
      using True td by (simp add: upserts_for_def)
  next
    case False
    then have none: "get_device (snd (upsert_device t sto d)) m = None"
      using Cons.prems(1) by (simp add: upsert_other)
    have rest: "upserts_for m us \<noteq> []"
      using Cons.prems(2) False td by (simp add: upserts_for_def)
    from Cons.IH [OF none rest] show ?thesis
      using False td by (simp add: upserts_for_def)
  qed
qed

lemma last_nonempty_snoc:
  "last_nonempty (xs @ [x]) = coalesce x (last_nonempty xs)"
  by (simp add: last_nonempty_def coalesce_def Let_def)

lemma last_nonempty_Cons_snoc:
  "last_nonempty (y # xs @ [x]) = coalesce x (last_nonempty (y # xs))"
  using last_nonempty_snoc [of "y # xs" x] by simp

lemma merge_row_simps [simp]:
  "r_mac (merge_row r td) = r_mac r"
  "r_ip (merge_row r td) = ip (snd td)"
  "r_hostname (merge_row r td) = coalesce (hostname (snd td)) (r_hostname r)"
  "r_vendor (merge_row r td) = coalesce (vendor (snd td)) (r_vendor r)"
  "first_seen (merge_row r td) = first_seen r"
  "last_seen (merge_row r td) = fst td"
  "is_known (merge_row r td) = is_known r"
  "is_trusted (merge_row r td) = is_trusted r"
  "r_notes (merge_row r td) = r_notes r"
  "custom_name (merge_row r td) = custom_name r"
  by (simp_all add: merge_row_def)

lemma foldl_merge_row_kept:
  "r_mac (foldl merge_row r ms) = r_mac r"
  "first_seen (foldl merge_row r ms) = first_seen r"
  "is_known (foldl merge_row r ms) = is_known r"
  "is_trusted (foldl merge_row r ms) = is_trusted r"
  "r_notes (foldl merge_row r ms) = r_notes r"
  "custom_name (foldl merge_row r ms) = custom_name r"
  by (induction ms rule: rev_induct) simp_all

lemma foldl_merge_row_last:
  "r_ip (foldl merge_row r ms) = (if ms = [] then r_ip r else ip (snd (last ms)))"
  "last_seen (foldl merge_row r ms) = (if ms = [] then last_seen r else fst (last ms))"
  by (induction ms rule: rev_induct) simp_all

lemma foldl_merge_row_hostname:
  "r_hostname (foldl merge_row r ms) =
     last_nonempty (r_hostname r # map (\<lambda>td. hostname (snd td)) ms)"
  by (induction ms rule: rev_induct)
    (simp_all add: last_nonempty_Cons_snoc, simp add: last_nonempty_def coalesce_def)

lemma foldl_merge_row_vendor:
  "r_vendor (foldl merge_row r ms) =
     last_nonempty (r_vendor r # map (\<lambda>td. vendor (snd td)) ms)"
  by (induction ms rule: rev_induct)
    (simp_all add: last_nonempty_Cons_snoc, simp add: last_nonempty_def coalesce_def)

lemma hd_tl_last:
  "ms \<noteq> [] \<Longrightarrow> tl ms = [] \<Longrightarrow> hd ms = last ms"
  "ms \<noteq> [] \<Longrightarrow> tl ms \<noteq> [] \<Longrightarrow> last (tl ms) = last ms"
  by (cases ms; simp)+

lemma upsert_all_first_record:
  assumes none: "get_device sto m = None" and ne: "upserts_for m us \<noteq> []"
  shows "\<exists>r. get_device (upsert_all sto us) m = Some r \<and>
          r_mac r = lower m \<and>
          r_ip r = ip (snd (last (upserts_for m us))) \<and>
          r_hostname r = last_nonempty (map (\<lambda>td. hostname (snd td)) (upserts_for m us)) \<and>
          r_vendor r = last_nonempty (map (\<lambda>td. vendor (snd td)) (upserts_for m us)) \<and>
          first_seen r = fst (hd (upserts_for m us)) \<and>
          last_seen r = fst (last (upserts_for m us))"
proof -
  let ?ms = "upserts_for m us"
  let ?r = "foldl merge_row (new_row (lower m) (fst (hd ?ms)) (snd (hd ?ms))) (tl ?ms)"
  have split: "?ms = hd ?ms # tl ?ms" using ne by simp
  have g: "get_device (upsert_all sto us) m = Some ?r"
    by (rule upsert_all_new [OF none ne])
  have 1: "r_mac ?r = lower m"
    by (simp add: foldl_merge_row_kept new_row_def)
  have 2: "r_ip ?r = ip (snd (last ?ms))"
    using ne by (simp add: foldl_merge_row_last new_row_def hd_tl_last)
  have 3: "r_hostname ?r = last_nonempty (map (\<lambda>td. hostname (snd td)) ?ms)"
    by (subst (2) split) (simp add: foldl_merge_row_hostname new_row_def)
  have 4: "r_vendor ?r = last_nonempty (map (\<lambda>td. vendor (snd td)) ?ms)"
    by (subst (2) split) (simp add: foldl_merge_row_vendor new_row_def)
  have 5: "first_seen ?r = fst (hd ?ms)"
    by (simp add: foldl_merge_row_kept new_row_def)
  have 6: "last_seen ?r = fst (last ?ms)"
    using ne by (simp add: foldl_merge_row_last new_row_def hd_tl_last)
  from g 1 2 3 4 5 6 show ?thesis by blast
qed

lemma upsert_all_later_record:
  assumes some: "get_device sto m = Some r0"
  shows "\<exists>r. get_device (upsert_all sto us) m = Some r \<and>
          r_ip r = (if upserts_for m us = [] then r_ip r0
                    else ip (snd (last (upserts_for m us)))) \<and>
          r_hostname r =
            last_nonempty (r_hostname r0 # map (\<lambda>td. hostname (snd td)) (upserts_for m us)) \<and>
          r_vendor r =
            last_nonempty (r_vendor r0 # map (\<lambda>td. vendor (snd td)) (upserts_for m us)) \<and>
          first_seen r = first_seen r0 \<and>
          ((\<forall>td \<in> set us. last_seen r0 \<le> fst td) \<longrightarrow> last_seen r0 \<le> last_seen r)"
proof -
  let ?ms = "upserts_for m us"
  let ?r = "foldl merge_row r0 ?ms"
  have g: "get_device (upsert_all sto us) m = Some ?r"
    by (rule upsert_all_existing [OF some])
  have mono: "(\<forall>td \<in> set us. last_seen r0 \<le> fst td) \<longrightarrow> last_seen r0 \<le> last_seen ?r"
  proof
    assume a: "\<forall>td \<in> set us. last_seen r0 \<le> fst td"
    show "last_seen r0 \<le> last_seen ?r"
    proof (cases "?ms = []")
      case True
      then show ?thesis by (simp add: foldl_merge_row_last)
    next
      case False
      then have "last ?ms \<in> set ?ms" by simp
      then have "last ?ms \<in> set us" by (simp add: upserts_for_def)
      with a False show ?thesis by (simp add: foldl_merge_row_last)
    qed
  qed
  from g mono show ?thesis
    by (simp add: foldl_merge_row_last foldl_merge_row_hostname foldl_merge_row_vendor
        foldl_merge_row_kept)
qed

text \<open>
  C6, as the code has it. \<open>upsert_device\<close> answers True exactly when the MAC had no
  row. After a run of upserts the row of a MAC holds: as ip the ip of the last upsert
  for that MAC, whether empty or not; as hostname and as vendor the last non-empty
  value supplied (counting the value the row held before the run); the first_seen of
  its creation, which no later upsert changes; and as last_seen the clock reading of the
  last upsert, which is no earlier than before when the clock never reads below the
  row's last_seen.
\<close>

theorem upsert_round_trip:
  "fst (upsert_device t sto d) = (get_device sto (mac d) = None) \<and>
   (get_device sto m = None \<and> upserts_for m us \<noteq> [] \<longrightarrow>
     (\<exists>r. get_device (upsert_all sto us) m = Some r \<and>
          r_mac r = lower m \<and>
          r_ip r = ip (snd (last (upserts_for m us))) \<and>
          r_hostname r = last_nonempty (map (\<lambda>td. hostname (snd td)) (upserts_for m us)) \<and>
          r_vendor r = last_nonempty (map (\<lambda>td. vendor (snd td)) (upserts_for m us)) \<and>
          first_seen r = fst (hd (upserts_for m us)) \<and>
          last_seen r = fst (last (upserts_for m us)))) \<and>
   (get_device sto m = Some r0 \<longrightarrow>
     (\<exists>r. get_device (upsert_all sto us) m = Some r \<and>
          r_ip r = (if upserts_for m us = [] then r_ip r0
                    else ip (snd (last (upserts_for m us)))) \<and>
          r_hostname r =
            last_nonempty (r_hostname r0 # map (\<lambda>td. hostname (snd td)) (upserts_for m us)) \<and>
          r_vendor r =
            last_nonempty (r_vendor r0 # map (\<lambda>td. vendor (snd td)) (upserts_for m us)) \<and>
          first_seen r = first_seen r0 \<and>
          ((\<forall>td \<in> set us. last_seen r0 \<le> fst td) \<longrightarrow> last_seen r0 \<le> last_seen r)))"
  using upsert_returns_new [of t sto d] upsert_all_first_record [of sto m us]
    upsert_all_later_record [of sto m r0 us]
  by blast

lemma lower_aabb: "lower ''aa:bb'' = ''aa:bb''"
  by (simp add: lower_def lower_char_def)


theorem upsert_round_trip_witness:
  "get_device empty_store ''aa:bb'' = None \<and>
   upserts_for ''aa:bb''
     [(10, \<lparr>ip = ''10.0.0.5'', mac = ''aa:bb'', hostname = ''nas'', vendor = []\<rparr>),
      (20, \<lparr>ip = ''10.0.0.9'', mac = ''aa:bb'', hostname = [], vendor = ''Acme''\<rparr>)] \<noteq> [] \<and>
   (\<exists>r. get_device (upsert_all empty_store
            [(10, \<lparr>ip = ''10.0.0.5'', mac = ''aa:bb'', hostname = ''nas'', vendor = []\<rparr>),
             (20, \<lparr>ip = ''10.0.0.9'', mac = ''aa:bb'', hostname = [], vendor = ''Acme''\<rparr>)])
            ''aa:bb'' = Some r \<and>
        r_ip r = ''10.0.0.9'' \<and> r_hostname r = ''nas'' \<and> r_vendor r = ''Acme'' \<and>
        first_seen r = 10 \<and> last_seen r = 20) \<and>
   get_device (snd (upsert_device 10 empty_store
       \<lparr>ip = ''10.0.0.5'', mac = ''aa:bb'', hostname = ''nas'', vendor = []\<rparr>)) ''aa:bb''
     = Some (new_row ''aa:bb'' 10 \<lparr>ip = ''10.0.0.5'', mac = ''aa:bb'', hostname = ''nas'', vendor = []\<rparr>) \<and>
   (\<exists>r. get_device (upsert_all (snd (upsert_device 10 empty_store
            \<lparr>ip = ''10.0.0.5'', mac = ''aa:bb'', hostname = ''nas'', vendor = []\<rparr>))
            [(20, \<lparr>ip = ''10.0.0.9'', mac = ''aa:bb'', hostname = [], vendor = ''Acme''\<rparr>)])
            ''aa:bb'' = Some r \<and>
        first_seen r = 10 \<and> 10 \<le> last_seen r)"
proof -
  let ?d1 = "\<lparr>ip = ''10.0.0.5'', mac = ''aa:bb'', hostname = ''nas'', vendor = []\<rparr>"
  let ?d2 = "\<lparr>ip = ''10.0.0.9'', mac = ''aa:bb'', hostname = [], vendor = ''Acme''\<rparr>"
  let ?db1 = "snd (upsert_device 10 empty_store ?d1)"
  have none: "get_device empty_store ''aa:bb'' = None"
    by (simp add: get_device_def empty_store_def)
  have ne: "upserts_for ''aa:bb'' [(10, ?d1), (20, ?d2)] \<noteq> []"
    by (simp add: upserts_for_def)
  have some: "get_device ?db1 ''aa:bb'' = Some (new_row ''aa:bb'' 10 ?d1)"
    by (simp add: upsert_device_def get_device_def empty_store_def Let_def new_row_def lower_aabb)
  have clock: "\<forall>td \<in> set [(20::nat, ?d2)]. last_seen (new_row ''aa:bb'' 10 ?d1) \<le> fst td"
    by (simp add: new_row_def)
  from upsert_round_trip [of 10 empty_store ?d1 "''aa:bb''" "[(10, ?d1), (20, ?d2)]"] none ne
  have a: "\<exists>r. get_device (upsert_all empty_store [(10, ?d1), (20, ?d2)]) ''aa:bb'' = Some r \<and>
        r_ip r = ''10.0.0.9'' \<and> r_hostname r = ''nas'' \<and> r_vendor r = ''Acme'' \<and>
        first_seen r = 10 \<and> last_seen r = 20"
    by (simp add: upserts_for_def last_nonempty_def) blast
  from upsert_round_trip [of 10 ?db1 ?d1 "''aa:bb''" "[(20, ?d2)]" "new_row ''aa:bb'' 10 ?d1"]
    some clock
  have b: "\<exists>r. get_device (upsert_all ?db1 [(20, ?d2)]) ''aa:bb'' = Some r \<and>
        first_seen r = 10 \<and> 10 \<le> last_seen r"
    by (simp add: new_row_def) blast
  from none ne some a b show ?thesis by blast
qed

text \<open>
  C6 as the specification words it fails for the ip: an upsert with an empty ip
  overwrites the stored address, which is then not the last non-empty one supplied.
\<close>

theorem upsert_empty_ip_counterexample:
  "map_option r_ip
     (get_device (upsert_all empty_store
        [(10, \<lparr>ip = ''10.0.0.5'', mac = ''aa:bb'', hostname = ''nas'', vendor = []\<rparr>),
         (20, \<lparr>ip = [], mac = ''aa:bb'', hostname = ''nas'', vendor = []\<rparr>)]) ''aa:bb'')
   \<noteq> Some (last_nonempty (map (\<lambda>td. ip (snd td))
        (upserts_for ''aa:bb''
          [(10, \<lparr>ip = ''10.0.0.5'', mac = ''aa:bb'', hostname = ''nas'', vendor = []\<rparr>),
           (20, \<lparr>ip = [], mac = ''aa:bb'', hostname = ''nas'', vendor = []\<rparr>)])))"
  by (simp add: upsert_device_def get_device_def empty_store_def Let_def lower_aabb
      update_where_mac_def upserts_for_def last_nonempty_def)

section \<open>The change detector\<close>

subsection \<open>One entry of the device list\<close>

lemma record_change_eq:
  "record_change now st loc c m ev i det =
     (if history_write_fails (db st) then
        (Some OperationalError, notify st c, loc\<lparr>changes := changes loc @ [c]\<rparr>)
      else
        (None,
         (notify st c)\<lparr>db := (db st)\<lparr>device_history := device_history (db st) @
            [\<lparr>h_mac = lower m, h_ip = i, event_type = ev, h_timestamp = now, details = det\<rparr>]\<rparr>\<rparr>,
         loc\<lparr>changes := changes loc @ [c]\<rparr>))"
  by (simp add: record_change_def log_event_def notify_def Let_def)

lemma upsert_fails_kept [simp]:
  "history_write_fails (snd (upsert_device now sto d)) = history_write_fails sto"
  by (simp add: upsert_device_def update_where_mac_def Let_def split: option.splits)

lemma upsert_fst: "fst (upsert_device now sto d) = (get_device sto (mac d) = None)"
  by (rule upsert_returns_new)

lemma process_device_changes:
  assumes "process_device now d st loc = (err, st', loc')"
  shows "changes loc' = changes loc @ detect now st d"
    and "notified st' = notified st @ detect now st d"
    and "err = (if detect now st d \<noteq> [] \<and> history_write_fails (db st)
                then Some OperationalError else None)"
  using assms
  by (auto simp: process_device_def detect_def record_change_eq Let_def upsert_fst get_device_def
      notify_def split: if_splits option.splits)

lemma process_device_frame:
  assumes "process_device now d st loc = (err, st', loc')"
  shows "last_scan_devices st' = last_scan_devices st"
    and "running st' = running st"
    and "scan_interval st' = scan_interval st"
    and "history_write_fails (db st') = history_write_fails (db st)"
    and "set (current_macs loc') =
           set (current_macs loc) \<union> (if mac d = [] then {} else {lower (mac d)})"
    and "gone_count loc' = gone_count loc"
  using assms
  by (auto simp: process_device_def record_change_eq Let_def upsert_fst get_device_def
      notify_def split: if_splits option.splits)

lemma process_device_row:
  assumes "process_device now d st loc = (err, st', loc')"
  shows "get_device (db st') k =
           (if mac d \<noteq> [] \<and> lower k = lower (mac d) then
              Some (case get_device (db st) k of
                      None \<Rightarrow> new_row (lower k) now d
                    | Some r \<Rightarrow> merge_row r (now, d))
            else get_device (db st) k)"
proof (cases "mac d = []")
  case True
  with assms show ?thesis by (simp add: process_device_def)
next
  case False
  have st': "devices (db st') = devices (snd (upsert_device now (db st) d))"
    using assms False
    by (auto simp: process_device_def record_change_eq Let_def notify_def
      split: if_splits option.splits)
  then have g: "get_device (db st') k = get_device (snd (upsert_device now (db st) d)) k"
    by (simp add: get_device_def)
  show ?thesis
  proof (cases "lower k = lower (mac d)")
    case True
    then have eq: "lower (mac d) = lower k" by simp
    show ?thesis
    proof (cases "get_device (db st) k")
      case None
      with upsert_same_new [OF None eq] g False True show ?thesis by simp
    next
      case (Some r)
      with upsert_same_existing [OF Some eq] g False True show ?thesis by simp
    qed
  next
    case nk: False
    then have "lower (mac d) \<noteq> lower k" by auto
    from upsert_other [OF this] g nk show ?thesis by simp
  qed
qed


lemma changes_for_append [simp]:
  "changes_for ty m (xs @ ys) = changes_for ty m xs @ changes_for ty m ys"
  by (simp add: changes_for_def)

lemma lower_fixed: "lower x = m \<Longrightarrow> lower m = m"
  using lower_idem [of x] by simp

lemma changes_for_not_lower: "lower m \<noteq> m \<Longrightarrow> changes_for ty m cs = []"
proof -
  assume a: "lower m \<noteq> m"
  have "\<And>x. lower x \<noteq> m"
    using a lower_fixed by blast
  then show ?thesis by (simp add: changes_for_def)
qed

lemma entries_for_not_lower: "lower m \<noteq> m \<Longrightarrow> entries_for m ds = []"
proof -
  assume a: "lower m \<noteq> m"
  have "\<And>x. lower x \<noteq> m"
    using a lower_fixed by blast
  then show ?thesis by (simp add: entries_for_def)
qed

lemma change_simps [simp]:
  "change_type (new_change now d) = ''new''" "device (new_change now d) = d"
  "change_type (returned_change now d e) = ''returned''" "device (returned_change now d e) = d"
  "change_type (changed_change now d e) = ''changed''" "device (changed_change now d e) = d"
  "change_type (gone_change now k e) = ''gone''" "mac (device (gone_change now k e)) = k"
  by (simp_all add: new_change_def returned_change_def changed_change_def gone_change_def)

lemma changes_for_detect_other:
  "mac d = [] \<or> lower (mac d) \<noteq> m \<Longrightarrow> changes_for ty m (detect now st d) = []"
  by (auto simp: detect_def changes_for_def split: option.splits)

lemma mac_changes_about:
  "\<forall>d \<in> set ds. lower (mac d) = m \<Longrightarrow>
   changes_for ty m (mac_changes now r seen ds) =
     filter (\<lambda>c. change_type c = ty) (mac_changes now r seen ds)"
proof (induction ds arbitrary: r)
  case Nil
  then show ?case by (simp add: changes_for_def)
next
  case (Cons d ds)
  then show ?case by (cases r) (auto simp: changes_for_def)
qed

lemma scan_devices_Cons_None:
  "scan_devices now (d # ds) st loc = (None, st', loc') \<Longrightarrow>
   \<exists>st1 loc1. process_device now d st loc = (None, st1, loc1) \<and>
              scan_devices now ds st1 loc1 = (None, st', loc')"
  by (cases "process_device now d st loc") (auto split: option.splits)

lemma scan_devices_mac_changes_all:
  assumes "scan_devices now ds st loc = (None, st', loc')" and lm: "lower m = m"
  shows "changes_for ty m (changes loc') =
           changes_for ty m (changes loc) @
           changes_for ty m (mac_changes now (get_device (db st) m)
              (m \<in> set (last_scan_devices st)) (entries_for m ds))"
  using assms(1)
proof (induction ds arbitrary: st loc)
  case Nil
  then show ?case by (simp add: entries_for_def changes_for_def)
next
  case (Cons d ds)
  from scan_devices_Cons_None [OF Cons.prems]
  obtain st1 loc1 where p: "process_device now d st loc = (None, st1, loc1)"
    and r: "scan_devices now ds st1 loc1 = (None, st', loc')" by blast
  note ih = Cons.IH [OF r]
  note ch = process_device_changes(1) [OF p]
  note ls = process_device_frame(1) [OF p]
  note row = process_device_row [OF p, of m]
  show ?case
  proof (cases "mac d \<noteq> [] \<and> lower (mac d) = m")
    case False
    then have other: "mac d = [] \<or> lower (mac d) \<noteq> m" by blast
    have e: "entries_for m (d # ds) = entries_for m ds"
      using False by (auto simp: entries_for_def)
    have g: "get_device (db st1) m = get_device (db st) m"
      using row False lm by auto
    show ?thesis
      using ih ch ls e g changes_for_detect_other [OF other] by simp
  next
    case True
    then have e: "entries_for m (d # ds) = d # entries_for m ds"
      by (simp add: entries_for_def)
    have gm: "get_device (db st) (mac d) = get_device (db st) m"
      using True lower_idem [of "mac d"] by (simp add: get_device_def)
    show ?thesis
    proof (cases "get_device (db st) m")
      case None
      have g: "get_device (db st1) m = Some (new_row m now d)"
        using row True None lm by simp
      have dt: "detect now st d = [new_change now d]"
        using True None gm by (simp add: detect_def)
      show ?thesis
        using ih ch ls e g dt None True by (simp add: changes_for_def)
    next
      case (Some r0)
      have g: "get_device (db st1) m = Some (merge_row r0 (now, d))"
        using row True Some lm by simp
      have dt: "detect now st d =
         (if \<not> (m \<in> set (last_scan_devices st)) then [returned_change now d r0]
          else if r_ip r0 \<noteq> ip d then [changed_change now d r0] else [])"
        using True Some gm by (simp add: detect_def)
      show ?thesis
        using ih ch ls e g dt Some True by (simp add: changes_for_def)
    qed
  qed
qed

lemma scan_devices_mac_changes:
  assumes "scan_devices now ds st loc = (None, st', loc')"
  shows "changes_for ty m (changes loc') =
           changes_for ty m (changes loc) @
           filter (\<lambda>c. change_type c = ty)
             (mac_changes now (get_device (db st) m)
                (m \<in> set (last_scan_devices st)) (entries_for m ds))"
proof (cases "lower m = m")
  case True
  have "\<forall>d \<in> set (entries_for m ds). lower (mac d) = m"
    by (simp add: entries_for_def)
  from mac_changes_about [OF this] scan_devices_mac_changes_all [OF assms True]
  show ?thesis by simp
next
  case False
  then show ?thesis
    by (simp add: changes_for_not_lower entries_for_not_lower)
qed

subsection \<open>The first loop\<close>

lemma scan_devices_frame:
  assumes "scan_devices now ds st loc = (err, st', loc')"
  shows "last_scan_devices st' = last_scan_devices st"
    and "running st' = running st"
    and "scan_interval st' = scan_interval st"
    and "history_write_fails (db st') = history_write_fails (db st)"
    and "gone_count loc' = gone_count loc"
  using assms
proof (induction ds arbitrary: st loc)
  case Nil
  { case 1 then show ?case by simp }
  { case 2 then show ?case by simp }
  { case 3 then show ?case by simp }
  { case 4 then show ?case by simp }
  { case 5 then show ?case by simp }
next
  case (Cons d ds)
  { case 1
    obtain e1 st1 loc1 where p: "process_device now d st loc = (e1, st1, loc1)"
      by (cases "process_device now d st loc") auto
    show ?case using 1 p Cons(1) [of st1 loc1] process_device_frame(1) [OF p]
      by (cases e1) auto }
  { case 2
    obtain e1 st1 loc1 where p: "process_device now d st loc = (e1, st1, loc1)"
      by (cases "process_device now d st loc") auto
    show ?case using 2 p Cons(2) [of st1 loc1] process_device_frame(2) [OF p]
      by (cases e1) auto }
  { case 3
    obtain e1 st1 loc1 where p: "process_device now d st loc = (e1, st1, loc1)"
      by (cases "process_device now d st loc") auto
    show ?case using 3 p Cons(3) [of st1 loc1] process_device_frame(3) [OF p]
      by (cases e1) auto }
  { case 4
    obtain e1 st1 loc1 where p: "process_device now d st loc = (e1, st1, loc1)"
      by (cases "process_device now d st loc") auto
    show ?case using 4 p Cons(4) [of st1 loc1] process_device_frame(4) [OF p]
      by (cases e1) auto }
  { case 5
    obtain e1 st1 loc1 where p: "process_device now d st loc = (e1, st1, loc1)"
      by (cases "process_device now d st loc") auto
    show ?case using 5 p Cons(5) [of st1 loc1] process_device_frame(6) [OF p]
      by (cases e1) auto }
qed

lemma scan_devices_current_macs:
  assumes "scan_devices now ds st loc = (None, st', loc')"
  shows "set (current_macs loc') = set (current_macs loc) \<union> set (seen_macs ds)"
  using assms
proof (induction ds arbitrary: st loc)
  case Nil
  then show ?case by (simp add: seen_macs_def)
next
  case (Cons d ds)
  from scan_devices_Cons_None [OF Cons.prems]
  obtain st1 loc1 where p: "process_device now d st loc = (None, st1, loc1)"
    and r: "scan_devices now ds st1 loc1 = (None, st', loc')" by blast
  from Cons.IH [OF r] process_device_frame(5) [OF p] show ?case
    by (auto simp: seen_macs_def)
qed

lemma scan_devices_changes_prefix:
  assumes "scan_devices now ds st loc = (None, st', loc')"
  shows "\<exists>new. changes loc' = changes loc @ new \<and> (\<forall>c \<in> set new. change_type c \<noteq> ''gone'')"
  using assms
proof (induction ds arbitrary: st loc)
  case Nil
  then show ?case by simp
next
  case (Cons d ds)
  from scan_devices_Cons_None [OF Cons.prems]
  obtain st1 loc1 where p: "process_device now d st loc = (None, st1, loc1)"
    and r: "scan_devices now ds st1 loc1 = (None, st', loc')" by blast
  from Cons.IH [OF r] obtain new where
    n: "changes loc' = changes loc1 @ new" "\<forall>c \<in> set new. change_type c \<noteq> ''gone''" by blast
  have dg: "\<forall>c \<in> set (detect now st d). change_type c \<noteq> ''gone''"
    by (auto simp: detect_def split: option.splits if_splits)
  from n process_device_changes(1) [OF p] dg
  have "changes loc' = changes loc @ (detect now st d @ new) \<and>
        (\<forall>c \<in> set (detect now st d @ new). change_type c \<noteq> ''gone'')"
    by auto
  then show ?case by blast
qed

lemma scan_devices_unseen_row:
  assumes "scan_devices now ds st loc = (err, st', loc')"
    and "lower k \<notin> set (seen_macs ds)"
  shows "get_device (db st') k = get_device (db st) k"
  using assms
proof (induction ds arbitrary: st loc)
  case Nil
  then show ?case by simp
next
  case (Cons d ds)
  obtain e1 st1 loc1 where p: "process_device now d st loc = (e1, st1, loc1)"
    by (cases "process_device now d st loc") auto
  have k1: "mac d \<noteq> [] \<longrightarrow> lower (mac d) \<noteq> lower k"
    and k2: "lower k \<notin> set (seen_macs ds)"
    using Cons.prems(2) by (auto simp: seen_macs_def)
  have g: "get_device (db st1) k = get_device (db st) k"
    using process_device_row [OF p, of k] k1 by auto
  show ?case
  proof (cases e1)
    case None
    with Cons.prems(1) p have "scan_devices now ds st1 loc1 = (err, st', loc')" by simp
    from Cons.IH [OF this k2] g show ?thesis by simp
  next
    case (Some e)
    with Cons.prems(1) p have "st' = st1" by simp
    with g show ?thesis by simp
  qed
qed

subsection \<open>The second loop\<close>

lemma gone_device_effect:
  assumes "gone_device now k st loc = (err, st', loc')"
  shows "changes loc' = changes loc @ gone_changes now (db st) (current_macs loc) [k]"
    and "devices (db st') = devices (db st)"
    and "current_macs loc' = current_macs loc"
    and "last_scan_devices st' = last_scan_devices st"
    and "running st' = running st"
    and "scan_interval st' = scan_interval st"
    and "history_write_fails (db st') = history_write_fails (db st)"
    and "err = (if gone_changes now (db st) (current_macs loc) [k] \<noteq> [] \<and>
                   history_write_fails (db st) then Some OperationalError else None)"
  using assms
  by (auto simp: gone_device_def gone_changes_def record_change_eq notify_def Let_def
      split: if_splits option.splits)

lemma gone_changes_devices:
  "devices sto' = devices sto \<Longrightarrow> gone_changes now sto' cur ks = gone_changes now sto cur ks"
proof -
  assume a: "devices sto' = devices sto"
  have eq: "get_device sto' = get_device sto"
    by (rule ext) (simp add: get_device_def a)
  show ?thesis unfolding gone_changes_def eq by (rule refl)
qed

lemma gone_changes_Cons:
  "gone_changes now sto cur (k # ks) = gone_changes now sto cur [k] @ gone_changes now sto cur ks"
  by (simp add: gone_changes_def)

lemma check_gone_frame:
  assumes "check_gone now ks st loc = (err, st', loc')"
  shows "devices (db st') = devices (db st)"
    and "current_macs loc' = current_macs loc"
    and "last_scan_devices st' = last_scan_devices st"
    and "running st' = running st"
    and "scan_interval st' = scan_interval st"
    and "history_write_fails (db st') = history_write_fails (db st)"
  using assms
proof (induction ks arbitrary: st loc)
  case Nil
  { case 1 then show ?case by simp }
  { case 2 then show ?case by simp }
  { case 3 then show ?case by simp }
  { case 4 then show ?case by simp }
  { case 5 then show ?case by simp }
  { case 6 then show ?case by simp }
next
  case (Cons k ks)
  { case 1
    obtain e1 st1 loc1 where p: "gone_device now k st loc = (e1, st1, loc1)"
      by (cases "gone_device now k st loc") auto
    show ?case using 1 p Cons(1) [of st1 loc1] gone_device_effect(2) [OF p]
      by (cases e1) auto }
  { case 2
    obtain e1 st1 loc1 where p: "gone_device now k st loc = (e1, st1, loc1)"
      by (cases "gone_device now k st loc") auto
    show ?case using 2 p Cons(2) [of st1 loc1] gone_device_effect(3) [OF p]
      by (cases e1) auto }
  { case 3
    obtain e1 st1 loc1 where p: "gone_device now k st loc = (e1, st1, loc1)"
      by (cases "gone_device now k st loc") auto
    show ?case using 3 p Cons(3) [of st1 loc1] gone_device_effect(4) [OF p]
      by (cases e1) auto }
  { case 4
    obtain e1 st1 loc1 where p: "gone_device now k st loc = (e1, st1, loc1)"
      by (cases "gone_device now k st loc") auto
    show ?case using 4 p Cons(4) [of st1 loc1] gone_device_effect(5) [OF p]
      by (cases e1) auto }
  { case 5
    obtain e1 st1 loc1 where p: "gone_device now k st loc = (e1, st1, loc1)"
      by (cases "gone_device now k st loc") auto
    show ?case using 5 p Cons(5) [of st1 loc1] gone_device_effect(6) [OF p]
      by (cases e1) auto }
  { case 6
    obtain e1 st1 loc1 where p: "gone_device now k st loc = (e1, st1, loc1)"
      by (cases "gone_device now k st loc") auto
    show ?case using 6 p Cons(6) [of st1 loc1] gone_device_effect(7) [OF p]
      by (cases e1) auto }
qed

lemma check_gone_changes:
  assumes "check_gone now ks st loc = (None, st', loc')"
  shows "changes loc' = changes loc @ gone_changes now (db st) (current_macs loc) ks"
  using assms
proof (induction ks arbitrary: st loc)
  case Nil
  then show ?case by (simp add: gone_changes_def)
next
  case (Cons k ks)
  obtain e1 st1 loc1 where p: "gone_device now k st loc = (e1, st1, loc1)"
    by (cases "gone_device now k st loc") auto
  with Cons.prems have e1: "e1 = None" and r: "check_gone now ks st1 loc1 = (None, st', loc')"
    by (cases e1; simp)+
  from Cons.IH [OF r] gone_device_effect(1,2,3) [OF p]
    gone_changes_devices [of "db st1" "db st" now "current_macs loc" ks]
  show ?case
    by (simp add: gone_changes_Cons [of now "db st" "current_macs loc" k ks])
qed

subsection \<open>One call of scan_network\<close>

lemma gone_changes_cong:
  "set cur' = set cur \<Longrightarrow>
   (\<And>k. k \<in> set ks \<Longrightarrow> k \<notin> set cur \<Longrightarrow> get_device sto' k = get_device sto k) \<Longrightarrow>
   gone_changes now sto' cur' ks = gone_changes now sto cur ks"
proof (induction ks)
  case Nil
  then show ?case by (simp add: gone_changes_def)
next
  case (Cons k ks)
  have "gone_changes now sto' cur' ks = gone_changes now sto cur ks"
    by (rule Cons.IH) (use Cons.prems in auto)
  moreover have "gone_changes now sto' cur' [k] = gone_changes now sto cur [k]"
    using Cons.prems by (auto simp: gone_changes_def)
  ultimately show ?case
    using gone_changes_Cons [of now sto' cur' k ks] gone_changes_Cons [of now sto cur k ks]
    by simp
qed

lemma gone_changes_types: "\<forall>c \<in> set (gone_changes now sto cur ks). change_type c = ''gone''"
  by (auto simp: gone_changes_def split: if_splits option.splits)

lemma changes_for_gone_changes:
  assumes "lower_macs ks" and "distinct ks"
  shows "changes_for ty m (gone_changes now sto cur ks) =
           (if ty = ''gone'' \<and> m \<in> set ks \<and> m \<notin> set cur then
              (case get_device sto m of None \<Rightarrow> [] | Some e \<Rightarrow> [gone_change now m e])
            else [])"
  using assms
proof (induction ks)
  case Nil
  then show ?case by (simp add: gone_changes_def changes_for_def)
next
  case (Cons k ks)
  have lk: "lower k = k" and lks: "lower_macs ks" and nk: "k \<notin> set ks" and dks: "distinct ks"
    using Cons.prems by (auto simp: lower_macs_def)
  have one: "changes_for ty m (gone_changes now sto cur [k]) =
           (if ty = ''gone'' \<and> m = k \<and> m \<notin> set cur then
              (case get_device sto m of None \<Rightarrow> [] | Some e \<Rightarrow> [gone_change now m e])
            else [])"
    using lk by (auto simp: gone_changes_def changes_for_def split: option.splits)
  show ?case
    using Cons.IH [OF lks dks] one nk
    by (subst gone_changes_Cons) (auto split: option.splits)
qed

lemma scan_network_Inr:
  assumes "scan_network now devs st = (Inr chs, st')"
  shows "\<exists>st1 loc1.
           scan_devices now devs st
             \<lparr>changes = [], current_macs = [], new_count = 0, gone_count = 0\<rparr> = (None, st1, loc1) \<and>
           chs = changes loc1 @
                 gone_changes now (db st1) (current_macs loc1) (remdups (last_scan_devices st)) \<and>
           last_scan_devices st' = current_macs loc1 \<and>
           devices (db st') = devices (db st1)"
proof -
  let ?loc0 = "\<lparr>changes = [], current_macs = [], new_count = 0, gone_count = 0\<rparr>"
  obtain e1 st1 loc1 where s1: "scan_devices now devs st ?loc0 = (e1, st1, loc1)"
    by (cases "scan_devices now devs st ?loc0") auto
  obtain e2 st2 loc2 where
    s2: "check_gone now (remdups (last_scan_devices st1)) st1 loc1 = (e2, st2, loc2)"
    by (cases "check_gone now (remdups (last_scan_devices st1)) st1 loc1") auto
  from assms s1 s2 have e1: "e1 = None" and e2: "e2 = None"
    and chs: "chs = changes loc2"
    and st': "st' = st2\<lparr>last_scan_devices := current_macs loc2,
                db := log_scan now (db st2) (length devs) (new_count loc2) (gone_count loc2)
                        ''monitor''\<rparr>"
    by (auto simp: scan_network_def split: option.splits)
  have ls: "last_scan_devices st1 = last_scan_devices st"
    using scan_devices_frame(1) [OF s1] .
  have g: "changes loc2 =
      changes loc1 @ gone_changes now (db st1) (current_macs loc1) (remdups (last_scan_devices st))"
    using check_gone_changes [of now _ st1 loc1 st2 loc2] s2 e2 ls by simp
  have c: "current_macs loc2 = current_macs loc1" and d: "devices (db st2) = devices (db st1)"
    using check_gone_frame(1,2) [OF s2] by simp_all
  show ?thesis
    using s1 e1 chs g st' c d by (simp add: log_scan_def)
qed

text \<open>
  The shape of a returned change list: what the first loop found, none of it a gone
  change, followed by the gone changes over the previous live set.
\<close>

lemma scan_network_shape:
  assumes r: "scan_network now devs st = (Inr chs, st')"
    and lm: "lower_macs (last_scan_devices st)"
  shows "\<exists>firsts.
           chs = firsts @
                 gone_changes now (db st) (seen_macs devs) (remdups (last_scan_devices st)) \<and>
           (\<forall>c \<in> set firsts. change_type c \<noteq> ''gone'') \<and>
           (\<forall>ty m. changes_for ty m firsts =
                filter (\<lambda>c. change_type c = ty)
                  (mac_changes now (get_device (db st) m) (m \<in> set (last_scan_devices st))
                     (entries_for m devs))) \<and>
           set (last_scan_devices st') = set (seen_macs devs)"
proof -
  let ?loc0 = "\<lparr>changes = [], current_macs = [], new_count = 0, gone_count = 0\<rparr>"
  from scan_network_Inr [OF r] obtain st1 loc1 where
    s1: "scan_devices now devs st ?loc0 = (None, st1, loc1)" and
    chs: "chs = changes loc1 @
            gone_changes now (db st1) (current_macs loc1) (remdups (last_scan_devices st))" and
    ls: "last_scan_devices st' = current_macs loc1" by blast
  have cur: "set (current_macs loc1) = set (seen_macs devs)"
    using scan_devices_current_macs [OF s1] by simp
  have rows: "\<And>k. k \<in> set (remdups (last_scan_devices st)) \<Longrightarrow> k \<notin> set (seen_macs devs) \<Longrightarrow>
      get_device (db st1) k = get_device (db st) k"
  proof -
    fix k assume "k \<in> set (remdups (last_scan_devices st))" and n: "k \<notin> set (seen_macs devs)"
    then have "lower k = k" using lm by (simp add: lower_macs_def)
    with n have "lower k \<notin> set (seen_macs devs)" by simp
    from scan_devices_unseen_row [OF s1 this] show "get_device (db st1) k = get_device (db st) k" .
  qed
  have g: "gone_changes now (db st1) (current_macs loc1) (remdups (last_scan_devices st)) =
           gone_changes now (db st) (seen_macs devs) (remdups (last_scan_devices st))"
    by (rule gone_changes_cong [OF cur rows])
  from scan_devices_changes_prefix [OF s1]
  have ng: "\<forall>c \<in> set (changes loc1). change_type c \<noteq> ''gone''" by simp
  have proj: "\<forall>ty m. changes_for ty m (changes loc1) =
                filter (\<lambda>c. change_type c = ty)
                  (mac_changes now (get_device (db st) m) (m \<in> set (last_scan_devices st))
                     (entries_for m devs))"
    using scan_devices_mac_changes [OF s1] by (simp add: changes_for_def)
  from chs g ng proj ls cur show ?thesis by auto
qed

lemma scan_network_Inl_frame:
  assumes "scan_network now devs st = (Inl e, st')"
  shows "last_scan_devices st' = last_scan_devices st"
proof -
  let ?loc0 = "\<lparr>changes = [], current_macs = [], new_count = 0, gone_count = 0\<rparr>"
  obtain e1 st1 loc1 where s1: "scan_devices now devs st ?loc0 = (e1, st1, loc1)"
    by (cases "scan_devices now devs st ?loc0") auto
  obtain e2 st2 loc2 where
    s2: "check_gone now (remdups (last_scan_devices st1)) st1 loc1 = (e2, st2, loc2)"
    by (cases "check_gone now (remdups (last_scan_devices st1)) st1 loc1") auto
  from assms s1 s2 have "st' = st1 \<or> st' = st2"
    by (auto simp: scan_network_def split: option.splits)
  with scan_devices_frame(1) [OF s1] check_gone_frame(3) [OF s2] show ?thesis by auto
qed

lemma seen_macs_lower: "lower_macs (seen_macs devs)"
  by (auto simp: lower_macs_def seen_macs_def)

lemma entries_for_seen: "(entries_for m devs = []) = (m \<notin> set (seen_macs devs))"
  by (auto simp: entries_for_def seen_macs_def filter_empty_conv)

lemma lower_macs_cong: "set ks = set ks' \<Longrightarrow> lower_macs ks = lower_macs ks'"
  by (simp add: lower_macs_def)

text \<open>Every call leaves a live set of lowercase MACs, whether it returns or raises.\<close>

lemma scan_network_lower_macs:
  assumes "scan_network now devs st = (r, st')" and "lower_macs (last_scan_devices st)"
  shows "lower_macs (last_scan_devices st')"
proof (cases r)
  case (Inl e)
  with assms scan_network_Inl_frame [of now devs st e st'] show ?thesis by simp
next
  case (Inr chs)
  with assms(1) have "scan_network now devs st = (Inr chs, st')" by simp
  from scan_network_shape [OF this assms(2)]
  have "set (last_scan_devices st') = set (seen_macs devs)" by blast
  from lower_macs_cong [OF this] seen_macs_lower show ?thesis by simp
qed

lemma detect_not_gone: "\<forall>c \<in> set (detect now st d). change_type c \<noteq> ''gone''"
  by (auto simp: detect_def split: option.splits if_splits)

text \<open>Whatever a loop appends to the change list it hands to the callbacks, in the same order.\<close>

lemma scan_devices_notified:
  assumes "scan_devices now ds st loc = (err, st', loc')"
  shows "\<exists>new. changes loc' = changes loc @ new \<and> notified st' = notified st @ new \<and>
               (\<forall>c \<in> set new. change_type c \<noteq> ''gone'')"
  using assms
proof (induction ds arbitrary: st loc)
  case Nil
  then show ?case by simp
next
  case (Cons d ds)
  obtain e1 st1 loc1 where p: "process_device now d st loc = (e1, st1, loc1)"
    by (cases "process_device now d st loc") auto
  note c = process_device_changes(1,2) [OF p]
  note g = detect_not_gone [of now st d]
  show ?case
  proof (cases e1)
    case None
    with Cons.prems p have r: "scan_devices now ds st1 loc1 = (err, st', loc')" by simp
    from Cons.IH [OF r] obtain new where
      n: "changes loc' = changes loc1 @ new" "notified st' = notified st1 @ new"
         "\<forall>c \<in> set new. change_type c \<noteq> ''gone''" by blast
    from n c g
    have "changes loc' = changes loc @ (detect now st d @ new) \<and>
          notified st' = notified st @ (detect now st d @ new) \<and>
          (\<forall>c \<in> set (detect now st d @ new). change_type c \<noteq> ''gone'')"
      by auto
    then show ?thesis by blast
  next
    case (Some e)
    with Cons.prems p have "st' = st1" "loc' = loc1" by simp_all
    with c g show ?thesis by blast
  qed
qed

lemma gone_device_notified:
  assumes "gone_device now k st loc = (err, st', loc')"
  shows "notified st' = notified st @ gone_changes now (db st) (current_macs loc) [k]"
  using assms
  by (auto simp: gone_device_def gone_changes_def record_change_eq notify_def Let_def
      split: if_splits option.splits)

lemma gone_changes_about:
  "\<forall>c \<in> set (gone_changes now sto cur ks).
     change_type c = ''gone'' \<and> mac (device c) \<in> set ks \<and> mac (device c) \<notin> set cur"
  by (auto simp: gone_changes_def split: if_splits option.splits)

lemma check_gone_notified:
  assumes "check_gone now ks st loc = (err, st', loc')"
  shows "\<exists>new. changes loc' = changes loc @ new \<and> notified st' = notified st @ new \<and>
               (\<forall>c \<in> set new. change_type c = ''gone'' \<and> mac (device c) \<in> set ks)"
  using assms
proof (induction ks arbitrary: st loc)
  case Nil
  then show ?case by simp
next
  case (Cons k ks)
  obtain e1 st1 loc1 where p: "gone_device now k st loc = (e1, st1, loc1)"
    by (cases "gone_device now k st loc") auto
  let ?g = "gone_changes now (db st) (current_macs loc) [k]"
  note c = gone_device_effect(1) [OF p] gone_device_notified [OF p]
  have g: "\<forall>c \<in> set ?g. change_type c = ''gone'' \<and> mac (device c) \<in> set (k # ks)"
    using gone_changes_about [of now "db st" "current_macs loc" "[k]"] by simp
  show ?case
  proof (cases e1)
    case None
    with Cons.prems p have r: "check_gone now ks st1 loc1 = (err, st', loc')" by simp
    from Cons.IH [OF r] obtain new where
      n: "changes loc' = changes loc1 @ new" "notified st' = notified st1 @ new"
         "\<forall>c \<in> set new. change_type c = ''gone'' \<and> mac (device c) \<in> set ks" by blast
    from n c g
    have "changes loc' = changes loc @ (?g @ new) \<and> notified st' = notified st @ (?g @ new) \<and>
          (\<forall>c \<in> set (?g @ new). change_type c = ''gone'' \<and> mac (device c) \<in> set (k # ks))"
      by auto
    then show ?thesis by blast
  next
    case (Some e)
    with Cons.prems p have "st' = st1" "loc' = loc1" by simp_all
    with c g show ?thesis by blast
  qed
qed

text \<open>
  What a call hands to the callbacks, whether it returns or raises: the changes of the
  first loop, then gone changes about members of the previous live set. A call that
  returns has handed over exactly the list it returns.
\<close>

lemma scan_network_notified:
  assumes "scan_network now devs st = (res, st')"
  shows "\<exists>firsts gones.
           notified st' = notified st @ firsts @ gones \<and>
           (\<forall>c \<in> set firsts. change_type c \<noteq> ''gone'') \<and>
           (\<forall>c \<in> set gones. change_type c = ''gone'' \<and>
                            mac (device c) \<in> set (last_scan_devices st)) \<and>
           (\<forall>chs. res = Inr chs \<longrightarrow> chs = firsts @ gones)"
proof -
  let ?loc0 = "\<lparr>changes = [], current_macs = [], new_count = 0, gone_count = 0\<rparr>"
  obtain e1 st1 loc1 where s1: "scan_devices now devs st ?loc0 = (e1, st1, loc1)"
    by (cases "scan_devices now devs st ?loc0") auto
  from scan_devices_notified [OF s1] obtain firsts where
    f: "changes loc1 = firsts" "notified st1 = notified st @ firsts"
       "\<forall>c \<in> set firsts. change_type c \<noteq> ''gone''" by auto
  have ls: "last_scan_devices st1 = last_scan_devices st"
    by (rule scan_devices_frame(1) [OF s1])
  show ?thesis
  proof (cases e1)
    case (Some e)
    with assms s1 have "res = Inl e" "st' = st1" by (simp_all add: scan_network_def)
    with f have "notified st' = notified st @ firsts @ [] \<and>
           (\<forall>c \<in> set firsts. change_type c \<noteq> ''gone'') \<and>
           (\<forall>c \<in> set []. change_type c = ''gone'' \<and>
                            mac (device c) \<in> set (last_scan_devices st)) \<and>
           (\<forall>chs. res = Inr chs \<longrightarrow> chs = firsts @ [])" by simp
    then show ?thesis by blast
  next
    case None
    obtain e2 st2 loc2 where
      s2: "check_gone now (remdups (last_scan_devices st1)) st1 loc1 = (e2, st2, loc2)"
      by (cases "check_gone now (remdups (last_scan_devices st1)) st1 loc1") auto
    from check_gone_notified [OF s2] ls obtain gones where
      g: "changes loc2 = changes loc1 @ gones" "notified st2 = notified st1 @ gones"
         "\<forall>c \<in> set gones. change_type c = ''gone'' \<and>
                          mac (device c) \<in> set (last_scan_devices st)" by auto
    have n: "notified st' = notified st2 \<and> (\<forall>chs. res = Inr chs \<longrightarrow> chs = changes loc2)"
      using assms s1 s2 None by (cases e2) (auto simp: scan_network_def)
    with f g have "notified st' = notified st @ firsts @ gones \<and>
           (\<forall>c \<in> set firsts. change_type c \<noteq> ''gone'') \<and>
           (\<forall>c \<in> set gones. change_type c = ''gone'' \<and>
                            mac (device c) \<in> set (last_scan_devices st)) \<and>
           (\<forall>chs. res = Inr chs \<longrightarrow> chs = firsts @ gones)" by simp
    then show ?thesis by blast
  qed
qed

lemma scan_network_notified_Inr:
  "scan_network now devs st = (Inr chs, st') \<Longrightarrow> notified st' = notified st @ chs"
  using scan_network_notified [of now devs st "Inr chs" st'] by auto


text \<open>A call raises only through a failing history write.\<close>

lemma scan_devices_err:
  assumes "scan_devices now ds st loc = (err, st', loc')"
  shows "err = None \<or> (err = Some OperationalError \<and> history_write_fails (db st))"
  using assms
proof (induction ds arbitrary: st loc)
  case Nil
  then show ?case by simp
next
  case (Cons d ds)
  obtain e1 st1 loc1 where p: "process_device now d st loc = (e1, st1, loc1)"
    by (cases "process_device now d st loc") auto
  show ?case
  proof (cases e1)
    case None
    with Cons.prems p have "scan_devices now ds st1 loc1 = (err, st', loc')" by simp
    from Cons.IH [OF this] process_device_frame(4) [OF p] show ?thesis by simp
  next
    case (Some e)
    with Cons.prems p have "err = e1" by simp
    with process_device_changes(3) [OF p] Some show ?thesis by (auto split: if_splits)
  qed
qed

lemma check_gone_err:
  assumes "check_gone now ks st loc = (err, st', loc')"
  shows "err = None \<or> (err = Some OperationalError \<and> history_write_fails (db st))"
  using assms
proof (induction ks arbitrary: st loc)
  case Nil
  then show ?case by simp
next
  case (Cons k ks)
  obtain e1 st1 loc1 where p: "gone_device now k st loc = (e1, st1, loc1)"
    by (cases "gone_device now k st loc") auto
  show ?case
  proof (cases e1)
    case None
    with Cons.prems p have "check_gone now ks st1 loc1 = (err, st', loc')" by simp
    from Cons.IH [OF this] gone_device_effect(7) [OF p] show ?thesis by simp
  next
    case (Some e)
    with Cons.prems p have "err = e1" by simp
    with gone_device_effect(8) [OF p] Some show ?thesis by (auto split: if_splits)
  qed
qed

lemma scan_network_err:
  assumes "fst (scan_network now devs st) = Inl err"
  shows "err = OperationalError \<and> history_write_fails (db st)"
proof -
  let ?loc0 = "\<lparr>changes = [], current_macs = [], new_count = 0, gone_count = 0\<rparr>"
  obtain e1 st1 loc1 where s1: "scan_devices now devs st ?loc0 = (e1, st1, loc1)"
    by (cases "scan_devices now devs st ?loc0") auto
  obtain e2 st2 loc2 where
    s2: "check_gone now (remdups (last_scan_devices st1)) st1 loc1 = (e2, st2, loc2)"
    by (cases "check_gone now (remdups (last_scan_devices st1)) st1 loc1") auto
  from assms s1 s2 have "e1 = Some err \<or> (e1 = None \<and> e2 = Some err)"
    by (auto simp: scan_network_def split: option.splits)
  with scan_devices_err [OF s1] check_gone_err [OF s2] scan_devices_frame(4) [OF s1]
  show ?thesis by auto
qed


subsection \<open>What the entries of one MAC yield\<close>





lemmas scan_eval =
  scan_network_def process_device_def record_change_def log_event_def notify_def
  gone_device_def log_scan_def upsert_device_def update_where_mac_def get_device_def
  new_monitor_def empty_store_def Let_def coalesce_def

subsection \<open>Gone changes\<close>

lemma absent_no_gone:
  assumes r: "scan_network now devs st = (Inr chs, st')"
    and lm: "lower_macs (last_scan_devices st)"
    and nm: "m \<notin> set (last_scan_devices st)"
  shows "changes_for ''gone'' m chs = []"
proof -
  from scan_network_shape [OF r lm] obtain firsts where
    chs: "chs = firsts @
            gone_changes now (db st) (seen_macs devs) (remdups (last_scan_devices st))"
    and ng: "\<forall>c \<in> set firsts. change_type c \<noteq> ''gone''" by blast
  have f: "changes_for ''gone'' m firsts = []"
    using ng by (auto simp: changes_for_def filter_empty_conv)
  have lr: "lower_macs (remdups (last_scan_devices st))"
    using lm by (simp add: lower_macs_def)
  have g: "changes_for ''gone'' m
             (gone_changes now (db st) (seen_macs devs) (remdups (last_scan_devices st))) = []"
    using changes_for_gone_changes [OF lr, of "''gone''" m now "db st" "seen_macs devs"] nm
    by simp
  from chs f g show ?thesis by simp
qed

lemma absent_stays_out:
  assumes r: "scan_network now devs st = (res, st')"
    and lm: "lower_macs (last_scan_devices st)"
    and nm: "m \<notin> set (last_scan_devices st)"
    and ne: "entries_for m devs = []"
  shows "m \<notin> set (last_scan_devices st')"
proof (cases res)
  case (Inl e)
  with r scan_network_Inl_frame [of now devs st e st'] nm show ?thesis by simp
next
  case (Inr chs)
  with r have "scan_network now devs st = (Inr chs, st')" by simp
  from scan_network_shape [OF this lm]
  have "set (last_scan_devices st') = set (seen_macs devs)" by blast
  with ne show ?thesis by (simp add: entries_for_seen)
qed

lemma later_cycles_no_gone:
  assumes "lower_macs (last_scan_devices st)"
    and "m \<notin> set (last_scan_devices st)"
    and "\<forall>c \<in> set cs. entries_for m (snd c) = []"
    and "Inr chs \<in> set (fst (scan_cycles st cs))"
  shows "changes_for ''gone'' m chs = []"
  using assms
proof (induction cs arbitrary: st)
  case Nil
  then show ?case by simp
next
  case (Cons c cs)
  obtain now devs where c: "c = (now, devs)" by (cases c)
  obtain res st1 where r: "scan_network now devs st = (res, st1)"
    by (cases "scan_network now devs st")
  have ne: "entries_for m devs = []" using Cons.prems(3) c by simp
  have lm1: "lower_macs (last_scan_devices st1)"
    by (rule scan_network_lower_macs [OF r Cons.prems(1)])
  have nm1: "m \<notin> set (last_scan_devices st1)"
    by (rule absent_stays_out [OF r Cons.prems(1,2) ne])
  have rest: "\<forall>c \<in> set cs. entries_for m (snd c) = []" using Cons.prems(3) by simp
  from Cons.prems(4) c r
  have "res = Inr chs \<or> Inr chs \<in> set (fst (scan_cycles st1 cs))"
    by (auto simp: Let_def split: prod.splits)
  then show ?case
  proof
    assume "res = Inr chs"
    with r have "scan_network now devs st = (Inr chs, st1)" by simp
    from absent_no_gone [OF this Cons.prems(1,2)] show ?thesis .
  next
    assume "Inr chs \<in> set (fst (scan_cycles st1 cs))"
    from Cons.IH [OF lm1 nm1 rest this] show ?thesis .
  qed
qed

lemma absent_not_notified:
  assumes r: "scan_network now devs st = (res, st')"
    and lm: "lower_macs (last_scan_devices st)"
    and nm: "m \<notin> set (last_scan_devices st)"
  shows "changes_for ''gone'' m (notified st') = changes_for ''gone'' m (notified st)"
proof -
  from scan_network_notified [OF r] obtain firsts gones where
    n: "notified st' = notified st @ firsts @ gones" and
    f: "\<forall>c \<in> set firsts. change_type c \<noteq> ''gone''" and
    g: "\<forall>c \<in> set gones. change_type c = ''gone'' \<and>
                         mac (device c) \<in> set (last_scan_devices st)" by blast
  have f': "changes_for ''gone'' m firsts = []"
    using f by (auto simp: changes_for_def filter_empty_conv)
  have "\<forall>c \<in> set gones. lower (mac (device c)) \<noteq> m"
    using g lm nm by (auto simp: lower_macs_def)
  then have g': "changes_for ''gone'' m gones = []"
    by (auto simp: changes_for_def filter_empty_conv)
  from n f' g' show ?thesis by simp
qed

lemma later_cycles_not_notified:
  assumes "lower_macs (last_scan_devices st)"
    and "m \<notin> set (last_scan_devices st)"
    and "\<forall>c \<in> set cs. entries_for m (snd c) = []"
  shows "changes_for ''gone'' m (notified (snd (scan_cycles st cs))) =
         changes_for ''gone'' m (notified st)"
  using assms
proof (induction cs arbitrary: st)
  case Nil
  then show ?case by simp
next
  case (Cons c cs)
  obtain now devs where c: "c = (now, devs)" by (cases c)
  obtain res st1 where r: "scan_network now devs st = (res, st1)"
    by (cases "scan_network now devs st")
  have ne: "entries_for m devs = []" using Cons.prems(3) c by simp
  have lm1: "lower_macs (last_scan_devices st1)"
    by (rule scan_network_lower_macs [OF r Cons.prems(1)])
  have nm1: "m \<notin> set (last_scan_devices st1)"
    by (rule absent_stays_out [OF r Cons.prems(1,2) ne])
  have rest: "\<forall>c \<in> set cs. entries_for m (snd c) = []" using Cons.prems(3) by simp
  have "snd (scan_cycles st (c # cs)) = snd (scan_cycles st1 cs)"
    using c r by (simp add: Let_def split: prod.splits)
  with Cons.IH [OF lm1 nm1 rest] absent_not_notified [OF r Cons.prems(1,2)]
  show ?case by simp
qed

text \<open>
  C5, as the code has it. A MAC of the previous live set that this cycle does not see
  and that has a row yields, in a cycle that returns its change list, exactly one gone
  change, built from that row; the returned list is what the cycle handed to the
  callbacks. The gone changes stand after everything the first loop found and are those
  of the previous live set less the MACs seen in this cycle. The MAC is not in the live
  set the cycle leaves, and through any number of later cycles that do not see it no
  returned change list holds a gone change for it and no gone change for it is handed to
  the callbacks, whether those cycles return or raise. The previous live set holds
  lowercase MACs, as every live set that \<open>scan_network\<close> writes does.
\<close>

theorem gone_exactly_once:
  assumes lm: "lower_macs (last_scan_devices st)"
    and inl: "m \<in> set (last_scan_devices st)"
    and ne: "entries_for m devs = []"
    and row: "get_device (db st) m = Some r"
    and res: "fst (scan_network now devs st) = Inr chs"
  shows "changes_for ''gone'' m chs = [gone_change now m r] \<and>
         notified (snd (scan_network now devs st)) = notified st @ chs \<and>
         (\<exists>firsts.
            chs = firsts @
              gone_changes now (db st) (seen_macs devs) (remdups (last_scan_devices st)) \<and>
            (\<forall>c \<in> set firsts. change_type c \<noteq> ''gone'')) \<and>
         m \<notin> set (last_scan_devices (snd (scan_network now devs st))) \<and>
         (\<forall>cs chs'.
            (\<forall>c \<in> set cs. entries_for m (snd c) = []) \<and>
            Inr chs' \<in> set (fst (scan_cycles (snd (scan_network now devs st)) cs)) \<longrightarrow>
            changes_for ''gone'' m chs' = []) \<and>
         (\<forall>cs.
            (\<forall>c \<in> set cs. entries_for m (snd c) = []) \<longrightarrow>
            changes_for ''gone'' m
              (notified (snd (scan_cycles (snd (scan_network now devs st)) cs))) =
            changes_for ''gone'' m (notified (snd (scan_network now devs st))))"
proof -
  obtain st' where run: "scan_network now devs st = (Inr chs, st')"
    using res by (cases "scan_network now devs st") auto
  from scan_network_shape [OF run lm] obtain firsts where
    chs: "chs = firsts @
            gone_changes now (db st) (seen_macs devs) (remdups (last_scan_devices st))"
    and ng: "\<forall>c \<in> set firsts. change_type c \<noteq> ''gone''"
    and ls: "set (last_scan_devices st') = set (seen_macs devs)" by blast
  have f: "changes_for ''gone'' m firsts = []"
    using ng by (auto simp: changes_for_def filter_empty_conv)
  have lr: "lower_macs (remdups (last_scan_devices st))"
    using lm by (simp add: lower_macs_def)
  have unseen: "m \<notin> set (seen_macs devs)" using ne by (simp add: entries_for_seen)
  have g: "changes_for ''gone'' m
             (gone_changes now (db st) (seen_macs devs) (remdups (last_scan_devices st))) =
           [gone_change now m r]"
    using changes_for_gone_changes [OF lr, of "''gone''" m now "db st" "seen_macs devs"]
      inl unseen row by simp
  have one: "changes_for ''gone'' m chs = [gone_change now m r]"
    using chs f g by simp
  have told: "notified st' = notified st @ chs"
    by (rule scan_network_notified_Inr [OF run])
  have out: "m \<notin> set (last_scan_devices st')" using ls unseen by simp
  have lm': "lower_macs (last_scan_devices st')"
    by (rule scan_network_lower_macs [OF run lm])
  have later: "\<forall>cs chs'.
            (\<forall>c \<in> set cs. entries_for m (snd c) = []) \<and>
            Inr chs' \<in> set (fst (scan_cycles st' cs)) \<longrightarrow>
            changes_for ''gone'' m chs' = []"
    using later_cycles_no_gone [OF lm' out] by blast
  have silent: "\<forall>cs. (\<forall>c \<in> set cs. entries_for m (snd c) = []) \<longrightarrow>
            changes_for ''gone'' m (notified (snd (scan_cycles st' cs))) =
            changes_for ''gone'' m (notified st')"
    using later_cycles_not_notified [OF lm' out] by blast
  have shape: "\<exists>firsts.
            chs = firsts @
              gone_changes now (db st) (seen_macs devs) (remdups (last_scan_devices st)) \<and>
            (\<forall>c \<in> set firsts. change_type c \<noteq> ''gone'')"
    using chs ng by blast
  have st': "snd (scan_network now devs st) = st'" using run by simp
  show ?thesis
    unfolding st' using one told shape out later silent by blast
qed

theorem gone_exactly_once_witness:
  "lower_macs (last_scan_devices (snd (scan_network 10
       [\<lparr>ip = ''10.0.0.5'', mac = ''aa:bb'', hostname = [], vendor = []\<rparr>]
       (new_monitor empty_store 60)))) \<and>
   ''aa:bb'' \<in> set (last_scan_devices (snd (scan_network 10
       [\<lparr>ip = ''10.0.0.5'', mac = ''aa:bb'', hostname = [], vendor = []\<rparr>]
       (new_monitor empty_store 60)))) \<and>
   entries_for ''aa:bb'' [] = [] \<and>
   get_device (db (snd (scan_network 10
       [\<lparr>ip = ''10.0.0.5'', mac = ''aa:bb'', hostname = [], vendor = []\<rparr>]
       (new_monitor empty_store 60)))) ''aa:bb''
     = Some (new_row ''aa:bb'' 10 \<lparr>ip = ''10.0.0.5'', mac = ''aa:bb'', hostname = [], vendor = []\<rparr>) \<and>
   fst (scan_network 20 [] (snd (scan_network 10
       [\<lparr>ip = ''10.0.0.5'', mac = ''aa:bb'', hostname = [], vendor = []\<rparr>]
       (new_monitor empty_store 60))))
     = Inr [gone_change 20 ''aa:bb''
             (new_row ''aa:bb'' 10 \<lparr>ip = ''10.0.0.5'', mac = ''aa:bb'', hostname = [], vendor = []\<rparr>)] \<and>
   changes_for ''gone'' ''aa:bb''
     [gone_change 20 ''aa:bb''
        (new_row ''aa:bb'' 10 \<lparr>ip = ''10.0.0.5'', mac = ''aa:bb'', hostname = [], vendor = []\<rparr>)]
     = [gone_change 20 ''aa:bb''
          (new_row ''aa:bb'' 10 \<lparr>ip = ''10.0.0.5'', mac = ''aa:bb'', hostname = [], vendor = []\<rparr>)] \<and>
   entries_for ''aa:bb'' (snd (30 :: nat, [] :: device list)) = [] \<and>
   entries_for ''aa:bb'' (snd (40 :: nat, [] :: device list)) = [] \<and>
   Inr [] \<in> set (fst (scan_cycles (snd (scan_network 20 [] (snd (scan_network 10
       [\<lparr>ip = ''10.0.0.5'', mac = ''aa:bb'', hostname = [], vendor = []\<rparr>]
       (new_monitor empty_store 60))))) [(30, []), (40, [])])) \<and>
   changes_for ''gone'' ''aa:bb'' [] = [] \<and>
   changes_for ''gone'' ''aa:bb''
     (notified (snd (scan_cycles (snd (scan_network 20 [] (snd (scan_network 10
       [\<lparr>ip = ''10.0.0.5'', mac = ''aa:bb'', hostname = [], vendor = []\<rparr>]
       (new_monitor empty_store 60))))) [(30, []), (40, [])])))
     = [gone_change 20 ''aa:bb''
          (new_row ''aa:bb'' 10 \<lparr>ip = ''10.0.0.5'', mac = ''aa:bb'', hostname = [], vendor = []\<rparr>)]"
proof -
  let ?d = "\<lparr>ip = ''10.0.0.5'', mac = ''aa:bb'', hostname = [], vendor = []\<rparr>"
  let ?st = "snd (scan_network 10 [?d] (new_monitor empty_store 60))"
  let ?r = "new_row ''aa:bb'' 10 ?d"
  let ?cs = "[(30, []), (40, [])] :: (nat \<times> device list) list"
  have ls: "last_scan_devices ?st = [''aa:bb'']"
    by (simp add: scan_eval lower_aabb)
  have nt: "notified ?st = [new_change 10 ?d]"
    by (simp add: scan_eval lower_aabb)
  have a: "lower_macs (last_scan_devices ?st)"
    by (simp add: ls lower_macs_def lower_aabb)
  have b: "''aa:bb'' \<in> set (last_scan_devices ?st)" by (simp add: ls)
  have c: "entries_for ''aa:bb'' [] = []" by (simp add: entries_for_def)
  have d: "get_device (db ?st) ''aa:bb'' = Some ?r"
    by (simp add: scan_eval lower_aabb new_row_def)
  have e: "fst (scan_network 20 [] ?st) = Inr [gone_change 20 ''aa:bb'' ?r]"
    by (simp add: scan_eval lower_aabb new_row_def gone_change_def)
  have cs: "\<forall>c \<in> set ?cs. entries_for ''aa:bb'' (snd c) = []"
    by (simp add: entries_for_def)
  have f: "Inr [] \<in> set (fst (scan_cycles (snd (scan_network 20 [] ?st)) ?cs))"
    by (simp add: scan_eval lower_aabb)
  note t = gone_exactly_once [OF a b c d e]
  have g: "changes_for ''gone'' ''aa:bb'' [gone_change 20 ''aa:bb'' ?r] =
           [gone_change 20 ''aa:bb'' ?r]"
    using t by blast
  have h: "changes_for ''gone'' ''aa:bb'' [] = []"
    using t cs f by blast
  have n2: "notified (snd (scan_network 20 [] ?st)) =
            [new_change 10 ?d, gone_change 20 ''aa:bb'' ?r]"
    using t nt by simp
  have "changes_for ''gone'' ''aa:bb''
          (notified (snd (scan_cycles (snd (scan_network 20 [] ?st)) ?cs))) =
        changes_for ''gone'' ''aa:bb'' (notified (snd (scan_network 20 [] ?st)))"
    using t cs by blast
  then have i: "changes_for ''gone'' ''aa:bb''
          (notified (snd (scan_cycles (snd (scan_network 20 [] ?st)) ?cs))) =
        [gone_change 20 ''aa:bb'' ?r]"
    by (simp only: n2) (simp add: changes_for_def lower_aabb)
  have cs': "entries_for ''aa:bb'' (snd (30 :: nat, [] :: device list)) = []"
    "entries_for ''aa:bb'' (snd (40 :: nat, [] :: device list)) = []"
    using cs by simp_all
  from a b c d e g cs' f h i show ?thesis by blast
qed

text \<open>
  C5 as the specification words it fails when the history write of the gone event
  raises: the gone change has been handed to the callbacks, the call raises before the
  live set is replaced, and the next cycle, in which the MAC is still absent, emits a
  gone change for it again.
\<close>

theorem gone_again_counterexample:
  "last_scan_devices (snd (scan_network 10
       [\<lparr>ip = ''10.0.0.5'', mac = ''aa:bb'', hostname = [], vendor = []\<rparr>]
       (new_monitor empty_store 60))) = [''aa:bb''] \<and>
   fst (scan_network 20 [] (set_history_fault True (snd (scan_network 10
       [\<lparr>ip = ''10.0.0.5'', mac = ''aa:bb'', hostname = [], vendor = []\<rparr>]
       (new_monitor empty_store 60))))) = Inl OperationalError \<and>
   map (\<lambda>c. (change_type c, mac (device c), timestamp c))
     (notified (snd (scan_network 20 [] (set_history_fault True (snd (scan_network 10
       [\<lparr>ip = ''10.0.0.5'', mac = ''aa:bb'', hostname = [], vendor = []\<rparr>]
       (new_monitor empty_store 60)))))))
     = [(''new'', ''aa:bb'', 10), (''gone'', ''aa:bb'', 20)] \<and>
   map_sum id (map (\<lambda>c. (change_type c, mac (device c), timestamp c)))
     (fst (scan_network 30 []
        (set_history_fault False
           (snd (scan_network 20 [] (set_history_fault True (snd (scan_network 10
              [\<lparr>ip = ''10.0.0.5'', mac = ''aa:bb'', hostname = [], vendor = []\<rparr>]
              (new_monitor empty_store 60)))))))))
     = Inr [(''gone'', ''aa:bb'', 30)] \<and>
   map (\<lambda>c. (change_type c, mac (device c), timestamp c))
     (notified (snd (scan_network 30 []
        (snd (scan_network 20 [] (set_history_fault True (snd (scan_network 10
           [\<lparr>ip = ''10.0.0.5'', mac = ''aa:bb'', hostname = [], vendor = []\<rparr>]
           (new_monitor empty_store 60)))))))))
     = [(''new'', ''aa:bb'', 10), (''gone'', ''aa:bb'', 20), (''gone'', ''aa:bb'', 30)]"
  by (simp add: scan_eval set_history_fault_def lower_aabb new_row_def new_change_def
      gone_change_def)

subsection \<open>New and changed\<close>











subsection \<open>A cycle that sees what the last one saw\<close>
















section \<open>Failures of the history write\<close>











lemmas loop_eval = loop_sleep_def loop_scan_def monitor_loop_def stop_def



section \<open>Stopping the loop\<close>

lemma process_device_running:
  "process_device now d (st\<lparr>running := b\<rparr>) loc =
     (case process_device now d st loc of (e, st', loc') \<Rightarrow> (e, st'\<lparr>running := b\<rparr>, loc'))"
  by (simp add: process_device_def record_change_def notify_def log_event_def Let_def
      split: option.splits)

lemma scan_devices_running:
  "scan_devices now ds (st\<lparr>running := b\<rparr>) loc =
     (case scan_devices now ds st loc of (e, st', loc') \<Rightarrow> (e, st'\<lparr>running := b\<rparr>, loc'))"
proof (induction ds arbitrary: st loc)
  case Nil
  then show ?case by simp
next
  case (Cons d ds)
  obtain e1 st1 loc1 where p: "process_device now d st loc = (e1, st1, loc1)"
    by (cases "process_device now d st loc") auto
  show ?case
    using p Cons.IH [of st1 loc1]
    by (cases e1) (simp_all add: process_device_running)
qed

lemma gone_device_running:
  "gone_device now k (st\<lparr>running := b\<rparr>) loc =
     (case gone_device now k st loc of (e, st', loc') \<Rightarrow> (e, st'\<lparr>running := b\<rparr>, loc'))"
  by (simp add: gone_device_def record_change_def notify_def log_event_def Let_def
      split: option.splits)

lemma check_gone_running:
  "check_gone now ks (st\<lparr>running := b\<rparr>) loc =
     (case check_gone now ks st loc of (e, st', loc') \<Rightarrow> (e, st'\<lparr>running := b\<rparr>, loc'))"
proof (induction ks arbitrary: st loc)
  case Nil
  then show ?case by simp
next
  case (Cons k ks)
  obtain e1 st1 loc1 where p: "gone_device now k st loc = (e1, st1, loc1)"
    by (cases "gone_device now k st loc") auto
  show ?case
    using p Cons.IH [of st1 loc1]
    by (cases e1) (simp_all add: gone_device_running)
qed

lemma scan_network_running:
  "scan_network now devs (st\<lparr>running := b\<rparr>) =
     (fst (scan_network now devs st), (snd (scan_network now devs st))\<lparr>running := b\<rparr>)"
proof -
  let ?loc0 = "\<lparr>changes = [], current_macs = [], new_count = 0, gone_count = 0\<rparr>"
  obtain e1 st1 loc1 where s1: "scan_devices now devs st ?loc0 = (e1, st1, loc1)"
    by (cases "scan_devices now devs st ?loc0") auto
  obtain e2 st2 loc2 where
    s2: "check_gone now (remdups (last_scan_devices st1)) st1 loc1 = (e2, st2, loc2)"
    by (cases "check_gone now (remdups (last_scan_devices st1)) st1 loc1") auto
  show ?thesis
    using s1 s2
    by (cases e1; cases e2)
      (simp_all add: scan_network_def scan_devices_running check_gone_running)
qed

lemma scan_network_keeps_running:
  "running (snd (scan_network now devs st)) = running st"
proof -
  let ?loc0 = "\<lparr>changes = [], current_macs = [], new_count = 0, gone_count = 0\<rparr>"
  obtain e1 st1 loc1 where s1: "scan_devices now devs st ?loc0 = (e1, st1, loc1)"
    by (cases "scan_devices now devs st ?loc0") auto
  obtain e2 st2 loc2 where
    s2: "check_gone now (remdups (last_scan_devices st1)) st1 loc1 = (e2, st2, loc2)"
    by (cases "check_gone now (remdups (last_scan_devices st1)) st1 loc1") auto
  from s1 s2 scan_devices_frame(2) [OF s1] check_gone_frame(4) [OF s2]
  show ?thesis
    by (cases e1; cases e2) (simp_all add: scan_network_def)
qed

lemma scan_network_not_cancelled:
  "fst (scan_network now devs st) \<noteq> Inl CancelledError"
  using scan_network_err [of now devs st CancelledError] by auto

lemma monitor_rounds_stopped: "\<not> running st \<Longrightarrow> monitor_rounds st es = (Returned, [], st)"
  by (cases es) simp_all

lemma round_with_stop:
  assumes run: "running st"
    and ev: "(c_sleep e = StopCall t \<and> c_scan e = Nothing) \<or>
             (c_sleep e = Nothing \<and> c_scan e = StopCall t)"
  shows "monitor_rounds st (e # es) =
           (Returned,
            [Slept (scan_interval st), Scanned (fst (scan_network (c_now e) (c_devices e) st))],
            stop (snd (scan_network (c_now e) (c_devices e) st)))"
proof -
  let ?r = "fst (scan_network (c_now e) (c_devices e) st)"
  let ?s = "snd (scan_network (c_now e) (c_devices e) st)"
  have sl: "\<exists>st1. loop_sleep e st = (scan_interval st, Some st1) \<and>
                  loop_scan e st1 = (?r, stop ?s)"
    using ev scan_network_running [of "c_now e" "c_devices e" False st]
    by (auto simp: loop_sleep_def loop_scan_def stop_def)
  then obtain st1 where a: "loop_sleep e st = (scan_interval st, Some st1)"
    and b: "loop_scan e st1 = (?r, stop ?s)" by blast
  have nr: "\<not> running (stop ?s)" by (simp add: stop_def)
  have nc: "?r \<noteq> Inl CancelledError" by (rule scan_network_not_cancelled)
  show ?thesis
  proof (cases ?r)
    case (Inr chs)
    with run a b monitor_rounds_stopped [OF nr, of es] show ?thesis by simp
  next
    case (Inl err)
    with nc have "err \<noteq> CancelledError" by auto
    with Inl run a b monitor_rounds_stopped [OF nr, of es] show ?thesis
      by (cases err) simp_all
  qed
qed

text \<open>
  C3, as the code has it. \<open>stop\<close> only clears the flag, which the loop reads at the head
  of a round. A stop that arrives during the sleep, however early, leaves the sleep its
  full interval; the scan of that round then runs whole, and the loop returns after it.
  A stop that arrives during a scan does not abort it: the scan gives the result it gives
  without the stop, and the loop returns without another sleep. A scan never changes the
  flag.
\<close>

theorem stop_waits_for_round_end:
  "(running st \<and>
    ((c_sleep e = StopCall t \<and> c_scan e = Nothing) \<or>
     (c_sleep e = Nothing \<and> c_scan e = StopCall t)) \<longrightarrow>
      monitor_rounds st (e # es) =
        (Returned,
         [Slept (scan_interval st), Scanned (fst (scan_network (c_now e) (c_devices e) st))],
         stop (snd (scan_network (c_now e) (c_devices e) st)))) \<and>
   scan_network now devs (stop st) =
     (fst (scan_network now devs st), stop (snd (scan_network now devs st))) \<and>
   running (snd (scan_network now devs st)) = running st"
  using round_with_stop [of st e t es] scan_network_running [of now devs False st]
    scan_network_keeps_running [of now devs st]
  by (simp add: stop_def)


theorem stop_waits_for_round_end_witness:
  "running ((new_monitor empty_store 60)\<lparr>running := True\<rparr>) \<and>
   c_sleep \<lparr>c_now = 70, c_devices = [], c_sleep = StopCall 1, c_scan = Nothing\<rparr> = StopCall 1 \<and>
   c_scan \<lparr>c_now = 70, c_devices = [], c_sleep = StopCall 1, c_scan = Nothing\<rparr> = Nothing \<and>
   fst (monitor_rounds ((new_monitor empty_store 60)\<lparr>running := True\<rparr>)
          [\<lparr>c_now = 70, c_devices = [], c_sleep = StopCall 1, c_scan = Nothing\<rparr>,
           \<lparr>c_now = 130, c_devices = [], c_sleep = Nothing, c_scan = Nothing\<rparr>]) = Returned \<and>
   fst (snd (monitor_rounds ((new_monitor empty_store 60)\<lparr>running := True\<rparr>)
          [\<lparr>c_now = 70, c_devices = [], c_sleep = StopCall 1, c_scan = Nothing\<rparr>,
           \<lparr>c_now = 130, c_devices = [], c_sleep = Nothing, c_scan = Nothing\<rparr>]))
     = [Slept 60, Scanned (Inr [])] \<and>
   c_sleep \<lparr>c_now = 70, c_devices = [], c_sleep = Nothing, c_scan = StopCall 2\<rparr> = Nothing \<and>
   c_scan \<lparr>c_now = 70, c_devices = [], c_sleep = Nothing, c_scan = StopCall 2\<rparr> = StopCall 2 \<and>
   fst (snd (monitor_rounds ((new_monitor empty_store 60)\<lparr>running := True\<rparr>)
          [\<lparr>c_now = 70, c_devices = [], c_sleep = Nothing, c_scan = StopCall 2\<rparr>,
           \<lparr>c_now = 130, c_devices = [], c_sleep = Nothing, c_scan = Nothing\<rparr>]))
     = [Slept 60, Scanned (Inr [])]"
proof -
  let ?st = "(new_monitor empty_store 60)\<lparr>running := True\<rparr>"
  let ?e = "\<lparr>c_now = 70, c_devices = [], c_sleep = StopCall 1, c_scan = Nothing\<rparr>"
  let ?f = "\<lparr>c_now = 70, c_devices = [], c_sleep = Nothing, c_scan = StopCall 2\<rparr>"
  let ?e' = "\<lparr>c_now = 130, c_devices = [], c_sleep = Nothing, c_scan = Nothing\<rparr>"
  have r: "running ?st" by simp
  have a: "c_sleep ?e = StopCall 1" and b: "c_scan ?e = Nothing" by simp_all
  have i: "scan_interval ?st = 60" by (simp add: new_monitor_def)
  have s: "fst (scan_network 70 [] ?st) = Inr []" by (simp add: scan_eval)
  from stop_waits_for_round_end [of ?st ?e 1 "[?e']"] r a b
  have "monitor_rounds ?st [?e, ?e'] =
        (Returned,
         [Slept (scan_interval ?st), Scanned (fst (scan_network (c_now ?e) (c_devices ?e) ?st))],
         stop (snd (scan_network (c_now ?e) (c_devices ?e) ?st)))"
    by blast
  with i s have one: "fst (monitor_rounds ?st [?e, ?e']) = Returned \<and>
                 fst (snd (monitor_rounds ?st [?e, ?e'])) = [Slept 60, Scanned (Inr [])]"
    by simp
  have a': "c_sleep ?f = Nothing" and b': "c_scan ?f = StopCall 2" by simp_all
  from stop_waits_for_round_end [of ?st ?f 2 "[?e']"] r a' b'
  have "monitor_rounds ?st [?f, ?e'] =
        (Returned,
         [Slept (scan_interval ?st), Scanned (fst (scan_network (c_now ?f) (c_devices ?f) ?st))],
         stop (snd (scan_network (c_now ?f) (c_devices ?f) ?st)))"
    by blast
  with i s have two: "fst (snd (monitor_rounds ?st [?f, ?e'])) = [Slept 60, Scanned (Inr [])]"
    by simp
  from r a b one a' b' two show ?thesis by blast
qed

text \<open>
  C3 as the specification words it fails: a loop with an interval of 60 seconds whose
  \<open>stop\<close> is called one second into the first sleep sleeps all 60 seconds and scans
  once more before it returns.
\<close>

theorem stop_during_sleep_counterexample:
  "fst (monitor_loop (new_monitor empty_store 60)
          \<lparr>c_now = 10, c_devices = [], c_sleep = Nothing, c_scan = Nothing\<rparr>
          [\<lparr>c_now = 70, c_devices = [], c_sleep = StopCall 1, c_scan = Nothing\<rparr>,
           \<lparr>c_now = 130, c_devices = [], c_sleep = Nothing, c_scan = Nothing\<rparr>]) = Returned \<and>
   fst (snd (monitor_loop (new_monitor empty_store 60)
          \<lparr>c_now = 10, c_devices = [], c_sleep = Nothing, c_scan = Nothing\<rparr>
          [\<lparr>c_now = 70, c_devices = [], c_sleep = StopCall 1, c_scan = Nothing\<rparr>,
           \<lparr>c_now = 130, c_devices = [], c_sleep = Nothing, c_scan = Nothing\<rparr>]))
     = [Scanned (Inr []), Slept 60, Scanned (Inr [])]"
  by (simp add: scan_eval loop_eval)

section \<open>The target enumerator\<close>

lemma on_value_error_simps [simp]:
  "on_value_error ValueError = Inr []"
  "on_value_error e \<noteq> Inl ValueError"
  by (simp_all add: on_value_error_def)

lemma collect_total:
  "\<forall>x \<in> set xs. \<exists>a. f x = Inr a \<Longrightarrow>
   \<exists>ys. collect (map f xs) = Inr ys \<and> length ys = length xs"
proof (induction xs)
  case Nil
  then show ?case by simp
next
  case (Cons x xs)
  then obtain a ys where "f x = Inr a" "collect (map f xs) = Inr ys" "length ys = length xs"
    by auto
  then show ?case by simp
qed

lemma expand_cidr_no_value_error: "expand_cidr lib cidr hosts_only \<noteq> Inl ValueError"
  by (simp add: expand_cidr_def split: sum.splits)

lemma expand_range_no_value_error: "expand_range lib start_ip end_ip \<noteq> Inl ValueError"
  by (simp add: expand_range_def split: sum.splits)

lemma collect_map_Inr: "collect (map (\<lambda>x. Inr (f x)) xs) = Inr (map f xs)"
  by (induction xs) simp_all

lemma address_of_int_below:
  "\<forall>n \<in> set xs. n < 2 ^ 128 \<Longrightarrow> map address_of_int xs = map (\<lambda>n. Inr (address_of n)) xs"
  by (simp add: address_of_int_def address_of_def)

lemma expand_range_parsed:
  assumes "ip_address lib start_ip = Inr a" and "ip_address lib end_ip = Inr b"
    and "int_of b < 2 ^ 128"
  shows "expand_range lib start_ip end_ip =
           Inr (map (\<lambda>n. str lib (address_of n)) [int_of a ..< int_of b + 1])"
proof -
  have "\<forall>n \<in> set [int_of a ..< int_of b + 1]. n < 2 ^ 128"
    using assms(3) by auto
  then have "collect (map address_of_int [int_of a ..< int_of b + 1]) =
             Inr (map address_of [int_of a ..< int_of b + 1])"
    by (simp only: address_of_int_below collect_map_Inr)
  then show ?thesis
    using assms(1,2) by (simp add: expand_range_def del: upt_Suc)
qed

text \<open>
  C8, as the code has it. A text that the parser rejects with \<open>ValueError\<close> makes
  \<open>expand_cidr\<close> and \<open>expand_range\<close> return the empty list; neither function ever
  raises \<open>ValueError\<close>. \<open>expand_range\<close> does not compare the families of its two
  addresses: whenever both texts parse, to \<open>a\<close> and \<open>b\<close>, it returns the texts of the
  addresses of the integers \<open>int(a), int(a) + 1, \<dots>, int(b)\<close> in this order, each
  address built from its integer alone (IPv4 below \<open>2 ^ 32\<close>, IPv6 from there on), and
  the empty list when \<open>int(b) < int(a)\<close>.
\<close>

theorem invalid_spec_gives_empty_list:
  "(ip_network lib cidr = Inl ValueError \<longrightarrow> expand_cidr lib cidr hosts_only = Inr []) \<and>
   (ip_address lib start_ip = Inl ValueError \<or>
    (\<exists>a. ip_address lib start_ip = Inr a \<and> ip_address lib end_ip = Inl ValueError) \<longrightarrow>
      expand_range lib start_ip end_ip = Inr []) \<and>
   (ip_address lib start_ip = Inr a \<and> ip_address lib end_ip = Inr b \<and> int_of b < 2 ^ 128 \<longrightarrow>
      expand_range lib start_ip end_ip =
        Inr (map (\<lambda>n. str lib (address_of n)) [int_of a ..< int_of b + 1])) \<and>
   expand_cidr lib cidr hosts_only \<noteq> Inl ValueError \<and>
   expand_range lib start_ip end_ip \<noteq> Inl ValueError"
proof -
  have 1: "ip_network lib cidr = Inl ValueError \<longrightarrow> expand_cidr lib cidr hosts_only = Inr []"
    by (simp add: expand_cidr_def)
  have 2: "ip_address lib start_ip = Inl ValueError \<or>
    (\<exists>a. ip_address lib start_ip = Inr a \<and> ip_address lib end_ip = Inl ValueError) \<longrightarrow>
      expand_range lib start_ip end_ip = Inr []"
    by (auto simp: expand_range_def)
  from 1 2 expand_range_parsed [of lib start_ip a end_ip b]
    expand_cidr_no_value_error [of lib cidr hosts_only]
    expand_range_no_value_error [of lib start_ip end_ip]
  show ?thesis by blast
qed

lemmas ipv4_eval =
  stdlib_def text_address_def address_str_def ipv4_network_def ipv4_address_def octet_def
  decimal_def digit_val_def ipv4_hosts_def ipv4_addresses_def ipv4_str_def show_octet_def
  digit_char_def expand_cidr_def expand_range_def address_of_int_def address_of_def Let_def

lemmas ipv6_eval = ipv6_address_def ipv6_int_def ipv6_parts_def hextet_def hex_val_def

lemma bad_network: "ip_network stdlib ''300.1.1.1/24'' = Inl ValueError"
  by (simp add: ipv4_eval)

lemma bad_address: "ip_address stdlib ''10.0.0'' = Inl ValueError"
  by (simp add: ipv4_eval ipv6_eval)

lemma good_addresses:
  "ip_address stdlib ''::2'' = Inr (IPv6Address 2)"
  "ip_address stdlib ''0.0.0.4'' = Inr (IPv4Address 4)"
  by (simp_all add: ipv4_eval ipv6_eval)

lemma three_addresses:
  "map (\<lambda>n. str stdlib (address_of n)) [int_of (IPv6Address 2) ..< int_of (IPv4Address 4) + 1] =
   [''0.0.0.2'', ''0.0.0.3'', ''0.0.0.4'']"
  by (simp add: ipv4_eval)

lemma expand_cidr_example:
  "expand_cidr stdlib ''192.168.1.0/30'' True = Inr [''192.168.1.1'', ''192.168.1.2'']"
  by (simp add: ipv4_eval)

lemma expand_range_example:
  "expand_range stdlib ''10.0.0.1'' ''10.0.0.3'' = Inr [''10.0.0.1'', ''10.0.0.2'', ''10.0.0.3'']"
  by (simp add: ipv4_eval)

theorem invalid_spec_gives_empty_list_witness:
  "ip_network stdlib ''300.1.1.1/24'' = Inl ValueError \<and>
   expand_cidr stdlib ''300.1.1.1/24'' True = Inr [] \<and>
   ip_address stdlib ''10.0.0'' = Inl ValueError \<and>
   expand_range stdlib ''10.0.0'' ''10.0.0.3'' = Inr [] \<and>
   ip_address stdlib ''::2'' = Inr (IPv6Address 2) \<and>
   ip_address stdlib ''0.0.0.4'' = Inr (IPv4Address 4) \<and>
   int_of (IPv4Address 4) < 2 ^ 128 \<and>
   expand_range stdlib ''::2'' ''0.0.0.4'' = Inr [''0.0.0.2'', ''0.0.0.3'', ''0.0.0.4'']"
proof -
  have b: "int_of (IPv4Address 4) < 2 ^ 128" by simp
  from invalid_spec_gives_empty_list [of stdlib "''300.1.1.1/24''" True "''10.0.0''"
      "''10.0.0.3''" "IPv4Address 0" "IPv4Address 0"] bad_network bad_address
  have e: "expand_cidr stdlib ''300.1.1.1/24'' True = Inr []"
    "expand_range stdlib ''10.0.0'' ''10.0.0.3'' = Inr []"
    by blast+
  from invalid_spec_gives_empty_list [of stdlib "''300.1.1.1/24''" True "''::2''"
      "''0.0.0.4''" "IPv6Address 2" "IPv4Address 4"] good_addresses b
  have "expand_range stdlib ''::2'' ''0.0.0.4'' =
        Inr (map (\<lambda>n. str stdlib (address_of n))
               [int_of (IPv6Address 2) ..< int_of (IPv4Address 4) + 1])"
    by blast
  then have r: "expand_range stdlib ''::2'' ''0.0.0.4'' =
                Inr [''0.0.0.2'', ''0.0.0.3'', ''0.0.0.4'']"
    by (simp only: three_addresses)
  from bad_network bad_address good_addresses b e r show ?thesis by blast
qed

text \<open>
  C8 as the specification words it fails: a CIDR text with an octet of 300 and a range
  whose end has three octets are malformed, and both calls return the empty list; a
  range from an IPv6 text to an IPv4 text is family-mismatched, and the call returns
  three addresses. No error reaches the caller.
\<close>

theorem invalid_spec_counterexample:
  "expand_cidr stdlib ''300.1.1.1/24'' True = Inr [] \<and>
   expand_range stdlib ''10.0.0.1'' ''10.0.0'' = Inr [] \<and>
   expand_range stdlib ''::2'' ''0.0.0.4'' = Inr [''0.0.0.2'', ''0.0.0.3'', ''0.0.0.4'']"
proof -
  have "expand_range stdlib ''::2'' ''0.0.0.4'' = Inr [''0.0.0.2'', ''0.0.0.3'', ''0.0.0.4'']"
    using expand_range_parsed [OF good_addresses(1) good_addresses(2)]
    by (simp only: three_addresses) simp
  moreover have "expand_cidr stdlib ''300.1.1.1/24'' True = Inr []"
    by (simp add: ipv4_eval)
  moreover have "expand_range stdlib ''10.0.0.1'' ''10.0.0'' = Inr []"
    by (simp add: ipv4_eval ipv6_eval)
  ultimately show ?thesis by simp
qed

section \<open>The probe executor\<close>

lemma filter_length_update:
  "i < length xs \<Longrightarrow>
   length (filter P (xs[i := y])) + (if P (xs ! i) then 1 else 0) =
   length (filter P xs) + (if P y then 1 else 0)"
proof (induction xs arbitrary: i)
  case Nil
  then show ?case by simp
next
  case (Cons x xs)
  show ?case
  proof (cases i)
    case 0
    then show ?thesis by simp
  next
    case (Suc j)
    with Cons.prems have "j < length xs" by simp
    from Cons.IH [OF this] Suc show ?thesis by simp
  qed
qed

lemma in_flight_update:
  assumes "i < length (tasks s)"
  shows "in_flight (s\<lparr>tasks := (tasks s)[i := (t, ph)]\<rparr>) +
           (if snd (tasks s ! i) = Probing then 1 else 0) =
         in_flight s + (if ph = Probing then 1 else 0)"
  using filter_length_update [OF assms, of "\<lambda>t. snd t = Probing" "(t, ph)"]
  by (simp add: in_flight_def)

lemma in_flight_permits [simp]:
  "in_flight (s\<lparr>permits := p\<rparr>) = in_flight s"
  "in_flight (s\<lparr>permits := p, tasks := ts\<rparr>) = in_flight (s\<lparr>tasks := ts\<rparr>)"
  by (simp_all add: in_flight_def)

text \<open>A step of the sweep keeps the semaphore's value plus the probes in flight.\<close>

lemma sweep_step_balance:
  "permits (sweep_step s ev) + in_flight (sweep_step s ev) = permits s + in_flight s"
proof (cases ev)
  case (Resume i)
  show ?thesis
  proof (cases "i < length (tasks s) \<and> snd (tasks s ! i) \<in> {Created, Waiting}")
    case False
    with Resume show ?thesis by (auto simp: sweep_step_def)
  next
    case True
    then have i: "i < length (tasks s)" and np: "snd (tasks s ! i) \<noteq> Probing" by auto
    show ?thesis
    proof (cases "0 < permits s")
      case pos: True
      from in_flight_update [OF i, of "fst (tasks s ! i)" Probing] np
      have "in_flight (s\<lparr>tasks := (tasks s)[i := (fst (tasks s ! i), Probing)]\<rparr>) =
            in_flight s + 1" by simp
      with Resume True pos show ?thesis by (simp add: sweep_step_def)
    next
      case zero: False
      from in_flight_update [OF i, of "fst (tasks s ! i)" Waiting] np
      have "in_flight (s\<lparr>tasks := (tasks s)[i := (fst (tasks s ! i), Waiting)]\<rparr>) =
            in_flight s" by simp
      with Resume True zero show ?thesis by (simp add: sweep_step_def)
    qed
  qed
next
  case (Complete i pe)
  show ?thesis
  proof (cases "i < length (tasks s) \<and> snd (tasks s ! i) = Probing")
    case False
    with Complete show ?thesis by (auto simp: sweep_step_def)
  next
    case True
    then have i: "i < length (tasks s)" and p: "snd (tasks s ! i) = Probing" by auto
    let ?f = "Finished (ping_result (fst (tasks s ! i)) pe)"
    from in_flight_update [OF i, of "fst (tasks s ! i)" ?f] p
    have "in_flight (s\<lparr>tasks := (tasks s)[i := (fst (tasks s ! i), ?f)]\<rparr>) + 1 =
          in_flight s" by simp
    with Complete True show ?thesis by (simp add: sweep_step_def)
  qed
qed

lemma run_sweep_balance:
  "permits (run_sweep s evs) + in_flight (run_sweep s evs) = permits s + in_flight s"
  unfolding run_sweep_def
  by (induction evs arbitrary: s) (simp_all add: sweep_step_balance)

lemma ping_sweep_start_balance:
  "ping_sweep_start n targets = Inr s \<Longrightarrow> 0 \<le> n \<and> permits s = nat n \<and> in_flight s = 0"
  by (auto simp: ping_sweep_start_def in_flight_def filter_empty_conv split: if_splits)

text \<open>
  C4. Whatever the event loop does in whatever order, a sweep started with the bound
  \<open>max_concurrent\<close> never has more than that many probes in flight; with the default
  bound, never more than 100.
\<close>

theorem probes_in_flight_bounded:
  "(ping_sweep_start max_concurrent targets = Inr s0 \<longrightarrow>
      int (in_flight (run_sweep s0 evs)) \<le> max_concurrent) \<and>
   (ping_sweep_start default_max_concurrent targets = Inr s0 \<longrightarrow>
      in_flight (run_sweep s0 evs) \<le> 100)"
proof (intro conjI impI)
  assume a: "ping_sweep_start max_concurrent targets = Inr s0"
  from ping_sweep_start_balance [OF a] run_sweep_balance [of s0 evs]
  show "int (in_flight (run_sweep s0 evs)) \<le> max_concurrent" by linarith
next
  assume a: "ping_sweep_start default_max_concurrent targets = Inr s0"
  from ping_sweep_start_balance [OF a] run_sweep_balance [of s0 evs]
  show "in_flight (run_sweep s0 evs) \<le> 100" by (simp add: default_max_concurrent_def)
qed


lemma fifty_targets_ten_in_flight:
  "in_flight (run_sweep
      \<lparr>permits = 10, tasks = map (\<lambda>t. (t, Created)) (replicate 50 ''10.0.0.1'')\<rparr>
      (map Resume [0..<50] @ [Complete 3 TimedOut, Complete 60 Failed, Resume 20])) = 10"
  by code_simp

theorem probes_in_flight_bounded_witness:
  "ping_sweep_start 10 (replicate 50 ''10.0.0.1'')
     = Inr \<lparr>permits = 10, tasks = map (\<lambda>t. (t, Created)) (replicate 50 ''10.0.0.1'')\<rparr> \<and>
   int (in_flight (run_sweep
      \<lparr>permits = 10, tasks = map (\<lambda>t. (t, Created)) (replicate 50 ''10.0.0.1'')\<rparr>
      (map Resume [0..<50] @ [Complete 3 TimedOut, Complete 60 Failed, Resume 20]))) \<le> 10 \<and>
   in_flight (run_sweep
      \<lparr>permits = 10, tasks = map (\<lambda>t. (t, Created)) (replicate 50 ''10.0.0.1'')\<rparr>
      (map Resume [0..<50] @ [Complete 3 TimedOut, Complete 60 Failed, Resume 20])) = 10 \<and>
   ping_sweep_start default_max_concurrent [''10.0.0.1'', ''10.0.0.2'']
     = Inr \<lparr>permits = 100, tasks = [(''10.0.0.1'', Created), (''10.0.0.2'', Created)]\<rparr> \<and>
   in_flight (run_sweep
      \<lparr>permits = 100, tasks = [(''10.0.0.1'', Created), (''10.0.0.2'', Created)]\<rparr>
      [Resume 0, Resume 1]) \<le> 100"
proof -
  let ?s = "\<lparr>permits = 10, tasks = map (\<lambda>t. (t, Created)) (replicate 50 ''10.0.0.1'')\<rparr>"
  let ?evs = "map Resume [0..<50] @ [Complete 3 TimedOut, Complete 60 Failed, Resume 20]"
  let ?s' = "\<lparr>permits = 100, tasks = [(''10.0.0.1'', Created), (''10.0.0.2'', Created)]\<rparr>"
  have a: "ping_sweep_start 10 (replicate 50 ''10.0.0.1'') = Inr ?s"
    by (simp add: ping_sweep_start_def)
  have b: "ping_sweep_start default_max_concurrent [''10.0.0.1'', ''10.0.0.2''] = Inr ?s'"
    by (simp add: ping_sweep_start_def default_max_concurrent_def)
  from probes_in_flight_bounded [of 10 "replicate 50 ''10.0.0.1''" ?s ?evs] a
  have c: "int (in_flight (run_sweep ?s ?evs)) \<le> 10" by blast
  from probes_in_flight_bounded [of default_max_concurrent "[''10.0.0.1'', ''10.0.0.2'']" ?s'
      "[Resume 0, Resume 1]"] b
  have d: "in_flight (run_sweep ?s' [Resume 0, Resume 1]) \<le> 100" by blast
  from a b c d fifty_targets_ten_in_flight show ?thesis by blast
qed

end
